theory Spec2Isabelle
  imports Complex_Main
begin

section \<open>Data model\<close>

text \<open>
  A board is a Python \<open>List[List[str]]\<close>: a list of rows, each a list of cell strings
  (\<open>"X"\<close>, \<open>"O"\<close> or the empty string). Nothing in the engine fixes the shape, so reading
  a cell outside the lists raises \<open>IndexError\<close>; the model makes that raise a value.
\<close>

type_synonym board = "string list list"

datatype error = IndexError | ValueError string

text \<open>
  \<open>Move\<close> (models/game\_models.py): \<open>row\<close> and \<open>col\<close> are validated by the model class to
  be at least 0, so they are naturals here; \<open>score\<close> is optional and never set by the
  engine.
\<close>

record move =
  row :: nat
  col :: nat
  score :: "int option"

definition Move :: "nat \<Rightarrow> nat \<Rightarrow> move" where
  "Move r c = \<lparr>row = r, col = c, score = None\<rparr>"

text \<open>
  Scores are Python numbers: the integers produced by the evaluation, and the two floats
  \<open>float('-inf')\<close> and \<open>float('inf')\<close> that start the search loops and the alpha-beta
  window. Python compares an int with an infinite float exactly.
\<close>

datatype score = NegInf | Num int | PosInf

instantiation score :: linorder
begin

fun less_eq_score :: "score \<Rightarrow> score \<Rightarrow> bool" where
  "less_eq_score NegInf _ = True"
| "less_eq_score (Num a) NegInf = False"
| "less_eq_score (Num a) (Num b) = (a \<le> b)"
| "less_eq_score (Num a) PosInf = True"
| "less_eq_score PosInf PosInf = True"
| "less_eq_score PosInf _ = False"

definition less_score :: "score \<Rightarrow> score \<Rightarrow> bool" where
  "less_score x y = (x \<le> y \<and> \<not> y \<le> x)"

instance
proof
  fix x y z :: score
  show "(x < y) = (x \<le> y \<and> \<not> y \<le> x)"
    by (simp add: less_score_def)
  show "x \<le> x"
    by (cases x) simp_all
  show "x \<le> y \<Longrightarrow> y \<le> z \<Longrightarrow> x \<le> z"
    by (cases x; cases y; cases z) simp_all
  show "x \<le> y \<Longrightarrow> y \<le> x \<Longrightarrow> x = y"
    by (cases x; cases y) simp_all
  show "x \<le> y \<or> y \<le> x"
    by (cases x; cases y) auto
qed

end

section \<open>Board rules engine (core/game\_engine.py)\<close>

text \<open>\<open>board[r][c]\<close> for non-negative indices: \<open>IndexError\<close> outside either list.\<close>

definition cell :: "board \<Rightarrow> nat \<Rightarrow> nat \<Rightarrow> error + string" where
  "cell board r c =
     (if r < length board then
        (if c < length (board ! r) then Inr (board ! r ! c) else Inl IndexError)
      else Inl IndexError)"

definition winning_combinations :: "(nat \<times> nat) list list" where
  "winning_combinations =
     [[(0, 0), (0, 1), (0, 2)],
      [(1, 0), (1, 1), (1, 2)],
      [(2, 0), (2, 1), (2, 2)],
      [(0, 0), (1, 0), (2, 0)],
      [(0, 1), (1, 1), (2, 1)],
      [(0, 2), (1, 2), (2, 2)],
      [(0, 0), (1, 1), (2, 2)],
      [(0, 2), (1, 1), (2, 0)]]"

text \<open>\<open>make_move\<close>: copy every row, then write the mark into the copy.\<close>

definition make_move :: "board \<Rightarrow> move \<Rightarrow> string \<Rightarrow> error + board" where
  "make_move board m player =
     (let new_board = map (\<lambda>r. r) board in
      if row m < length new_board then
        (if col m < length (new_board ! row m)
         then Inr (new_board[row m := (new_board ! row m)[col m := player]])
         else Inl IndexError)
      else Inl IndexError)"

text \<open>The list comprehension \<open>[board[row][col] for row, col in combination]\<close>.\<close>

fun cells_of :: "board \<Rightarrow> (nat \<times> nat) list \<Rightarrow> error + string list" where
  "cells_of board [] = Inr []"
| "cells_of board ((r, c) # rest) =
     (case cell board r c of
        Inl e \<Rightarrow> Inl e
      | Inr x \<Rightarrow> (case cells_of board rest of
                   Inl e \<Rightarrow> Inl e
                 | Inr xs \<Rightarrow> Inr (x # xs)))"

text \<open>The loop of \<open>check_winner\<close> over the combinations still to be tried.\<close>

fun check_winner_loop :: "board \<Rightarrow> (nat \<times> nat) list list \<Rightarrow> error + string option" where
  "check_winner_loop board [] = Inr None"
| "check_winner_loop board (combination # rest) =
     (case cells_of board combination of
        Inl e \<Rightarrow> Inl e
      | Inr [] \<Rightarrow> Inl IndexError
      | Inr (c0 # cs) \<Rightarrow>
          if c0 \<noteq> '''' \<and> list_all (\<lambda>c. c = c0) (c0 # cs) then Inr (Some c0)
          else check_winner_loop board rest)"

definition check_winner :: "board \<Rightarrow> error + string option" where
  "check_winner board = check_winner_loop board winning_combinations"

definition is_draw :: "board \<Rightarrow> error + bool" where
  "is_draw board =
     (case check_winner board of
        Inl e \<Rightarrow> Inl e
      | Inr (Some w) \<Rightarrow> Inr False
      | Inr None \<Rightarrow> Inr (list_all (\<lambda>r. '''' \<notin> set r) board))"

definition is_game_over :: "board \<Rightarrow> error + bool" where
  "is_game_over board =
     (case check_winner board of
        Inl e \<Rightarrow> Inl e
      | Inr (Some w) \<Rightarrow> Inr True
      | Inr None \<Rightarrow> is_draw board)"

text \<open>
  The two nested \<open>range(3)\<close> loops of \<open>get_available_moves\<close>, as one loop over the index
  pairs in the order the loops visit them.
\<close>

fun get_available_moves_loop :: "board \<Rightarrow> (nat \<times> nat) list \<Rightarrow> move list \<Rightarrow> error + move list" where
  "get_available_moves_loop board [] moves = Inr moves"
| "get_available_moves_loop board ((r, c) # rest) moves =
     (case cell board r c of
        Inl e \<Rightarrow> Inl e
      | Inr x \<Rightarrow>
          get_available_moves_loop board rest (if x = '''' then moves @ [Move r c] else moves))"

definition scan_order :: "(nat \<times> nat) list" where
  "scan_order = concat (map (\<lambda>r. map (\<lambda>c. (r, c)) [0..<3]) [0..<3])"

definition get_available_moves :: "board \<Rightarrow> error + move list" where
  "get_available_moves board = get_available_moves_loop board scan_order []"

section \<open>Search engine (core/ai\_algorithms.py)\<close>

definition AI_PLAYER :: string where "AI_PLAYER = ''O''"
definition HUMAN_PLAYER :: string where "HUMAN_PLAYER = ''X''"
definition WIN_SCORE :: int where "WIN_SCORE = 100"
definition LOSE_SCORE :: int where "LOSE_SCORE = - 100"
definition DRAW_SCORE :: int where "DRAW_SCORE = 0"

text \<open>
  The statistics fields of the \<open>AIAlgorithms\<close> object, mutated by every search call and
  therefore passed in and returned. The wall-clock fields (\<open>start_time\<close>, and
  \<open>thinking_time\<close> of the analysis) are left out.
\<close>

record search_stats =
  nodes_explored :: nat
  pruned_branches :: nat
  max_depth_reached :: int

text \<open>\<open>AlgorithmAnalysis\<close>: the three counters, the rationale and the evaluation score.\<close>

record algorithm_analysis = search_stats +
  move_reasoning :: string
  evaluation_score :: score

definition reset_stats :: "search_stats \<Rightarrow> search_stats" where
  "reset_stats st = \<lparr>nodes_explored = 0, pruned_branches = 0, max_depth_reached = 0\<rparr>"

definition create_analysis :: "search_stats \<Rightarrow> string \<Rightarrow> score \<Rightarrow> algorithm_analysis" where
  "create_analysis st reasoning sc =
     \<lparr>nodes_explored = nodes_explored st,
      pruned_branches = pruned_branches st,
      max_depth_reached = max_depth_reached st,
      move_reasoning = reasoning,
      evaluation_score = sc\<rparr>"

text \<open>The loop of \<open>_calculate_position_value\<close> over the corner positions.\<close>

fun corner_loop :: "board \<Rightarrow> (nat \<times> nat) list \<Rightarrow> int \<Rightarrow> error + int" where
  "corner_loop board [] sc = Inr sc"
| "corner_loop board ((r, c) # rest) sc =
     (case cell board r c of
        Inl e \<Rightarrow> Inl e
      | Inr corner_player \<Rightarrow>
          corner_loop board rest
            (if corner_player = AI_PLAYER then sc + 2
             else if corner_player = HUMAN_PLAYER then sc - 2
             else sc))"

definition calculate_position_value :: "board \<Rightarrow> error + int" where
  "calculate_position_value board =
     (case cell board 1 1 of
        Inl e \<Rightarrow> Inl e
      | Inr center_player \<Rightarrow>
          corner_loop board [(0, 0), (0, 2), (2, 0), (2, 2)]
            (if center_player = AI_PLAYER then 0 + 3
             else if center_player = HUMAN_PLAYER then 0 - 3
             else 0))"

definition evaluate_position :: "board \<Rightarrow> int \<Rightarrow> error + int" where
  "evaluate_position board depth =
     (case check_winner board of
        Inl e \<Rightarrow> Inl e
      | Inr winner \<Rightarrow>
          if winner = Some AI_PLAYER then Inr (WIN_SCORE - depth)
          else if winner = Some HUMAN_PLAYER then Inr (LOSE_SCORE + depth)
          else (case is_draw board of
                  Inl e \<Rightarrow> Inl e
                | Inr True \<Rightarrow> Inr DRAW_SCORE
                | Inr False \<Rightarrow> calculate_position_value board))"

definition should_stop_search :: "board \<Rightarrow> int \<Rightarrow> int \<Rightarrow> error + bool" where
  "should_stop_search board depth max_depth =
     (case is_game_over board of
        Inl e \<Rightarrow> Inl e
      | Inr True \<Rightarrow> Inr True
      | Inr False \<Rightarrow> Inr (depth \<ge> max_depth))"

text \<open>The bookkeeping at the head of \<open>minimax\<close> and \<open>alpha_beta\<close>.\<close>

definition visit :: "search_stats \<Rightarrow> int \<Rightarrow> search_stats" where
  "visit st depth =
     st\<lparr>nodes_explored := nodes_explored st + 1,
        max_depth_reached := max (max_depth_reached st) depth\<rparr>"

type_synonym search_result = "error + ((move option \<times> score) \<times> search_stats)"

text \<open>
  \<open>minimax\<close> with its two loops. \<open>maximize_score\<close> and \<open>minimize_score\<close> are the \<open>for\<close>
  loops of \<open>_maximize_score\<close> and \<open>_minimize_score\<close> on the moves still to be tried; their
  loop variables \<open>best_move\<close> and \<open>best_score\<close> are arguments, started by the caller at
  \<open>None\<close> and \<open>float('-inf')\<close> (\<open>float('inf')\<close> for the minimiser).
\<close>

function minimax :: "board \<Rightarrow> int \<Rightarrow> bool \<Rightarrow> int \<Rightarrow> search_stats \<Rightarrow> search_result"
  and maximize_score ::
    "board \<Rightarrow> int \<Rightarrow> move list \<Rightarrow> int \<Rightarrow> move option \<Rightarrow> score \<Rightarrow> search_stats \<Rightarrow> search_result"
  and minimize_score ::
    "board \<Rightarrow> int \<Rightarrow> move list \<Rightarrow> int \<Rightarrow> move option \<Rightarrow> score \<Rightarrow> search_stats \<Rightarrow> search_result"
where
  "minimax board depth is_ai_turn max_depth st =
     (case should_stop_search board depth max_depth of
        Inl e \<Rightarrow> Inl e
      | Inr True \<Rightarrow>
          (case evaluate_position board depth of
             Inl e \<Rightarrow> Inl e
           | Inr v \<Rightarrow> Inr ((None, Num v), visit st depth))
      | Inr False \<Rightarrow>
          (case get_available_moves board of
             Inl e \<Rightarrow> Inl e
           | Inr available_moves \<Rightarrow>
               if is_ai_turn
               then maximize_score board depth available_moves max_depth None NegInf (visit st depth)
               else minimize_score board depth available_moves max_depth None PosInf (visit st depth)))"
| "maximize_score board depth [] max_depth best_move best_score st =
     Inr ((best_move, best_score), st)"
| "maximize_score board depth (m # moves) max_depth best_move best_score st =
     (case make_move board m AI_PLAYER of
        Inl e \<Rightarrow> Inl e
      | Inr new_board \<Rightarrow>
          (case minimax new_board (depth + 1) False max_depth st of
             Inl e \<Rightarrow> Inl e
           | Inr ((move_from_recursion, sc), st') \<Rightarrow>
               if sc > best_score
               then maximize_score board depth moves max_depth (Some m) sc st'
               else maximize_score board depth moves max_depth best_move best_score st'))"
| "minimize_score board depth [] max_depth best_move best_score st =
     Inr ((best_move, best_score), st)"
| "minimize_score board depth (m # moves) max_depth best_move best_score st =
     (case make_move board m HUMAN_PLAYER of
        Inl e \<Rightarrow> Inl e
      | Inr new_board \<Rightarrow>
          (case minimax new_board (depth + 1) True max_depth st of
             Inl e \<Rightarrow> Inl e
           | Inr ((move_from_recursion, sc), st') \<Rightarrow>
               if sc < best_score
               then minimize_score board depth moves max_depth (Some m) sc st'
               else minimize_score board depth moves max_depth best_move best_score st'))"
  by pat_completeness auto

termination
  apply (relation "inv_image (less_than <*lex*> less_than)
    (\<lambda>x. case x of
       Inl (b, d, ai, md, st) \<Rightarrow> (2 * nat (md - d), 0)
     | Inr (Inl (b, d, ms, md, bm, bs, st)) \<Rightarrow> (2 * nat (md - d - 1) + 1, length ms)
     | Inr (Inr (b, d, ms, md, bm, bs, st)) \<Rightarrow> (2 * nat (md - d - 1) + 1, length ms))")
  apply (auto simp: should_stop_search_def split: sum.splits bool.splits)
  done

text \<open>
  \<open>alpha_beta\<close> with its two loops, laid out as above; the loops also carry the window
  \<open>alpha\<close>, \<open>beta\<close>, which they update, and count one pruned branch at each \<open>break\<close>.
\<close>

function alpha_beta ::
    "board \<Rightarrow> int \<Rightarrow> score \<Rightarrow> score \<Rightarrow> bool \<Rightarrow> int \<Rightarrow> search_stats \<Rightarrow> search_result"
  and maximize_with_pruning ::
    "board \<Rightarrow> int \<Rightarrow> move list \<Rightarrow> score \<Rightarrow> score \<Rightarrow> int \<Rightarrow> move option \<Rightarrow> score \<Rightarrow>
       search_stats \<Rightarrow> search_result"
  and minimize_with_pruning ::
    "board \<Rightarrow> int \<Rightarrow> move list \<Rightarrow> score \<Rightarrow> score \<Rightarrow> int \<Rightarrow> move option \<Rightarrow> score \<Rightarrow>
       search_stats \<Rightarrow> search_result"
where
  "alpha_beta board depth alpha beta is_ai_turn max_depth st =
     (case should_stop_search board depth max_depth of
        Inl e \<Rightarrow> Inl e
      | Inr True \<Rightarrow>
          (case evaluate_position board depth of
             Inl e \<Rightarrow> Inl e
           | Inr v \<Rightarrow> Inr ((None, Num v), visit st depth))
      | Inr False \<Rightarrow>
          (case get_available_moves board of
             Inl e \<Rightarrow> Inl e
           | Inr available_moves \<Rightarrow>
               if is_ai_turn
               then maximize_with_pruning board depth available_moves alpha beta max_depth
                      None NegInf (visit st depth)
               else minimize_with_pruning board depth available_moves alpha beta max_depth
                      None PosInf (visit st depth)))"
| "maximize_with_pruning board depth [] alpha beta max_depth best_move best_score st =
     Inr ((best_move, best_score), st)"
| "maximize_with_pruning board depth (m # moves) alpha beta max_depth best_move best_score st =
     (case make_move board m AI_PLAYER of
        Inl e \<Rightarrow> Inl e
      | Inr new_board \<Rightarrow>
          (case alpha_beta new_board (depth + 1) alpha beta False max_depth st of
             Inl e \<Rightarrow> Inl e
           | Inr ((move_from_recursion, sc), st') \<Rightarrow>
               if beta \<le> max alpha sc
               then Inr ((if sc > best_score then Some m else best_move,
                          if sc > best_score then sc else best_score),
                         st'\<lparr>pruned_branches := pruned_branches st' + 1\<rparr>)
               else maximize_with_pruning board depth moves (max alpha sc) beta max_depth
                      (if sc > best_score then Some m else best_move)
                      (if sc > best_score then sc else best_score) st'))"
| "minimize_with_pruning board depth [] alpha beta max_depth best_move best_score st =
     Inr ((best_move, best_score), st)"
| "minimize_with_pruning board depth (m # moves) alpha beta max_depth best_move best_score st =
     (case make_move board m HUMAN_PLAYER of
        Inl e \<Rightarrow> Inl e
      | Inr new_board \<Rightarrow>
          (case alpha_beta new_board (depth + 1) alpha beta True max_depth st of
             Inl e \<Rightarrow> Inl e
           | Inr ((move_from_recursion, sc), st') \<Rightarrow>
               if min beta sc \<le> alpha
               then Inr ((if sc < best_score then Some m else best_move,
                          if sc < best_score then sc else best_score),
                         st'\<lparr>pruned_branches := pruned_branches st' + 1\<rparr>)
               else minimize_with_pruning board depth moves alpha (min beta sc) max_depth
                      (if sc < best_score then Some m else best_move)
                      (if sc < best_score then sc else best_score) st'))"
  by pat_completeness auto

termination
  apply (relation "inv_image (less_than <*lex*> less_than)
    (\<lambda>x. case x of
       Inl (b, d, al, be, ai, md, st) \<Rightarrow> (2 * nat (md - d), 0)
     | Inr (Inl (b, d, ms, al, be, md, bm, bs, st)) \<Rightarrow> (2 * nat (md - d - 1) + 1, length ms)
     | Inr (Inr (b, d, ms, al, be, md, bm, bs, st)) \<Rightarrow> (2 * nat (md - d - 1) + 1, length ms))")
  apply (auto simp: should_stop_search_def split: sum.splits bool.splits)
  done

definition depth_limited_minimax :: "board \<Rightarrow> int \<Rightarrow> search_stats \<Rightarrow> search_result" where
  "depth_limited_minimax board max_depth st = minimax board 0 True max_depth st"

text \<open>Python's \<open>str\<close> of an integer, for the two formatted rationales.\<close>

fun str_nat :: "nat \<Rightarrow> string" where
  "str_nat n =
     (if n < 10 then [char_of (48 + n)]
      else str_nat (n div 10) @ [char_of (48 + n mod 10)])"

declare str_nat.simps [simp del]

definition str_int :: "int \<Rightarrow> string" where
  "str_int i = (if i < 0 then CHR ''-'' # str_nat (nat (- i)) else str_nat (nat i))"

definition depth_settings :: "(string \<times> int) list" where
  "depth_settings = [(''easy'', 3), (''medium'', 6), (''hard'', 9)]"

definition get_search_depth :: "string \<Rightarrow> int option \<Rightarrow> int" where
  "get_search_depth difficulty max_depth =
     (case max_depth of
        Some d \<Rightarrow> d
      | None \<Rightarrow> (case map_of depth_settings difficulty of Some d \<Rightarrow> d | None \<Rightarrow> 6))"

definition run_algorithm ::
    "board \<Rightarrow> string \<Rightarrow> int \<Rightarrow> search_stats \<Rightarrow>
       error + ((move option \<times> score \<times> string) \<times> search_stats)" where
  "run_algorithm board algorithm search_depth st =
     (if algorithm = ''alpha_beta'' then
        (case alpha_beta board 0 NegInf PosInf True search_depth st of
           Inl e \<Rightarrow> Inl e
         | Inr ((best_move, eval_score), st') \<Rightarrow>
             Inr ((best_move, eval_score,
                   ''Alpha-beta pruning found best move (pruned ''
                     @ str_nat (pruned_branches st') @ '' branches)''), st'))
      else if algorithm = ''depth_limited'' then
        (case depth_limited_minimax board search_depth st of
           Inl e \<Rightarrow> Inl e
         | Inr ((best_move, eval_score), st') \<Rightarrow>
             Inr ((best_move, eval_score,
                   ''Depth-limited search to depth '' @ str_int search_depth), st'))
      else
        (case minimax board 0 True search_depth st of
           Inl e \<Rightarrow> Inl e
         | Inr ((best_move, eval_score), st') \<Rightarrow>
             Inr ((best_move, eval_score, ''Classic minimax algorithm''), st')))"

text \<open>
  The random draws are explicit inputs. \<open>random_value\<close> is what \<open>random.random()\<close>
  returns, a float in [0, 1) and so a rational; \<open>random_index\<close> is the raw draw behind
  \<open>random.choice\<close>, which picks \<open>seq[k]\<close> for some \<open>k\<close> below \<open>len(seq)\<close> and raises
  \<open>IndexError\<close> on an empty sequence. The float literal \<open>0.3\<close> is the double nearest to
  3/10.
\<close>

record random_source =
  random_value :: rat
  random_index :: nat

definition float_0_3 :: rat where
  "float_0_3 = 5404319552844595 / 18014398509481984"

definition random_choice :: "'a list \<Rightarrow> random_source \<Rightarrow> error + 'a" where
  "random_choice xs rng =
     (if xs = [] then Inl IndexError else Inr (xs ! (random_index rng mod length xs)))"

text \<open>
  \<open>_apply_difficulty_adjustments\<close> returns a move only. Its assignment to
  \<open>move_reasoning\<close> (here \<open>reasoning\<close>) rebinds the function's own parameter: it is the
  unused \<open>let\<close> below and is invisible to the caller.
\<close>

definition apply_difficulty_adjustments ::
    "move \<Rightarrow> move list \<Rightarrow> string \<Rightarrow> string \<Rightarrow> random_source \<Rightarrow> error + move" where
  "apply_difficulty_adjustments best_move available_moves difficulty reasoning rng =
     (if difficulty = ''easy'' \<and> length available_moves > 1 then
        (if random_value rng < float_0_3 then
           (case random_choice available_moves rng of
              Inl e \<Rightarrow> Inl e
            | Inr random_move \<Rightarrow>
                (let reasoning = ''Random move for easy difficulty''
                 in Inr random_move))
         else Inr best_move)
      else Inr best_move)"

text \<open>
  \<open>get_best_move\<close>: \<open>st\<close> is the object's statistics before the call; the result is the
  move, the analysis and the statistics the object is left with.
\<close>

definition get_best_move ::
    "search_stats \<Rightarrow> board \<Rightarrow> string \<Rightarrow> string \<Rightarrow> int option \<Rightarrow> random_source \<Rightarrow>
       error + ((move \<times> algorithm_analysis) \<times> search_stats)" where
  "get_best_move st board algorithm difficulty max_depth rng =
     (let st0 = reset_stats st;
          search_depth = get_search_depth difficulty max_depth
      in case get_available_moves board of
           Inl e \<Rightarrow> Inl e
         | Inr available_moves \<Rightarrow>
             if available_moves = [] then Inl (ValueError ''No available moves on the board'')
             else if length available_moves = 1 then
               Inr ((available_moves ! 0,
                     create_analysis st0 ''Only one move available'' (Num 0)), st0)
             else
               (case run_algorithm board algorithm search_depth st0 of
                  Inl e \<Rightarrow> Inl e
                | Inr ((best_move, eval_score, reasoning), st1) \<Rightarrow>
                    (let (best_move, eval_score, reasoning) =
                           (case best_move of
                              None \<Rightarrow> (available_moves ! 0, Num 0,
                                        ''Fallback to first available move'')
                            | Some bm \<Rightarrow> (bm, eval_score, reasoning))
                     in case apply_difficulty_adjustments best_move available_moves
                               difficulty reasoning rng of
                          Inl e \<Rightarrow> Inl e
                        | Inr final_move \<Rightarrow>
                            Inr ((final_move,
                                  create_analysis st1 reasoning eval_score), st1))))"

section \<open>Predicates used to state the properties\<close>

text \<open>The shape every caller of the core guarantees: three rows of three cells.\<close>

definition board_3x3 :: "board \<Rightarrow> bool" where
  "board_3x3 b \<longleftrightarrow> length b = 3 \<and> list_all (\<lambda>r. length r = 3) b"

text \<open>Every cell is one of the three allowed strings.\<close>

definition valid_cells :: "board \<Rightarrow> bool" where
  "valid_cells b \<longleftrightarrow>
     list_all (\<lambda>r. list_all (\<lambda>x. x = ''X'' \<or> x = ''O'' \<or> x = '''') r) b"

text \<open>The coordinates of the empty cells, in row-major order.\<close>

definition empty_cells :: "board \<Rightarrow> (nat \<times> nat) list" where
  "empty_cells b = filter (\<lambda>(r, c). b ! r ! c = '''') scan_order"

text \<open>
  A mark fills one of the given lines; with the eight winning lines, it occupies a
  complete winning line.
\<close>

definition line_of :: "board \<Rightarrow> string \<Rightarrow> (nat \<times> nat) list list \<Rightarrow> bool" where
  "line_of b mark combos \<longleftrightarrow>
     list_ex (\<lambda>combination. list_all (\<lambda>(r, c). b ! r ! c = mark) combination) combos"

definition occupies_line :: "board \<Rightarrow> string \<Rightarrow> bool" where
  "occupies_line b mark \<longleftrightarrow> line_of b mark winning_combinations"

definition coords :: "move \<Rightarrow> nat \<times> nat" where
  "coords m = (row m, col m)"

definition row_major :: "nat \<times> nat \<Rightarrow> nat \<times> nat \<Rightarrow> bool" where
  "row_major p q \<longleftrightarrow> fst p < fst q \<or> (fst p = fst q \<and> snd p < snd q)"

text \<open>Boards of the scenarios in the specification and the tests.\<close>

definition board_single_empty :: board where
  "board_single_empty = [[''X'', ''O'', ''X''], [''O'', ''X'', ''O''], [''O'', ''X'', '''']]"

definition board_two_lines :: board where
  "board_two_lines = [[''X'', ''X'', ''X''], [''O'', ''O'', ''O''], ['''', '''', '''']]"

definition board_x_won :: board where
  "board_x_won = [[''X'', ''X'', ''X''], [''O'', ''O'', ''''], ['''', '''', '''']]"


definition board_drawn :: board where
  "board_drawn = [[''X'', ''O'', ''X''], [''O'', ''X'', ''O''], [''O'', ''X'', ''O'']]"

definition board_opening :: board where
  "board_opening = [[''X'', '''', ''''], ['''', ''O'', ''''], ['''', '''', '''']]"


definition board_two_empty :: board where
  "board_two_empty = [[''X'', ''O'', ''X''], [''X'', ''O'', ''O''], [''O'', '''', '''']]"

text \<open>A score that is one of the evaluation's integers.\<close>

definition finite_score :: "score \<Rightarrow> bool" where
  "finite_score v \<longleftrightarrow> NegInf < v \<and> v < PosInf"

text \<open>
  A search returns: started from any statistics it ends without an error, with the score
  \<open>v\<close> and with \<open>n\<close> more nodes explored than before.
\<close>

definition returns :: "(search_stats \<Rightarrow> search_result) \<Rightarrow> score \<Rightarrow> nat \<Rightarrow> bool" where
  "returns f v n \<longleftrightarrow>
     (\<forall>st. \<exists>mv st'. f st = Inr ((mv, v), st') \<and> nodes_explored st' = nodes_explored st + n)"

text \<open>
  What a search with the window \<open>(alpha, beta)\<close> tells about the exact value \<open>v\<close> by its
  result \<open>r\<close>: the value itself inside the window, and a bound on it outside.
\<close>

definition window_bound :: "score \<Rightarrow> score \<Rightarrow> score \<Rightarrow> score \<Rightarrow> bool" where
  "window_bound alpha beta v r \<longleftrightarrow>
     (r \<le> alpha \<longrightarrow> v \<le> r) \<and> (alpha < r \<and> r < beta \<longrightarrow> r = v) \<and> (beta \<le> r \<longrightarrow> r \<le> v)"

text \<open>
  The two searches agree on a position: both return, with finite scores; within any
  window the pruned search is bounded as above and explores at most as many nodes.
\<close>

definition searches_agree :: "board \<Rightarrow> int \<Rightarrow> bool \<Rightarrow> int \<Rightarrow> bool" where
  "searches_agree b d ai md \<longleftrightarrow>
     (\<exists>v n. finite_score v \<and> returns (minimax b d ai md) v n
        \<and> (\<forall>alpha beta. alpha < beta \<longrightarrow>
              (\<exists>r k. returns (alpha_beta b d alpha beta ai md) r k
                 \<and> k \<le> n \<and> finite_score r \<and> window_bound alpha beta v r)))"

text \<open>The statistics of a freshly reset engine, and a random source for the examples.\<close>

definition fresh_stats :: search_stats where
  "fresh_stats = \<lparr>nodes_explored = 0, pruned_branches = 0, max_depth_reached = 0\<rparr>"

definition low_draw :: random_source where
  "low_draw = \<lparr>random_value = 0, random_index = 1\<rparr>"

section \<open>\<open>make_move\<close> on the object store\<close>

text \<open>
  Python lists are mutable objects, and a board is a list object whose elements are
  references to row objects. To state that \<open>make_move\<close> leaves its argument alone, the
  two statements of its body are modelled once more on an explicit store: row objects
  and board objects live in two tables, a reference is an index into its table, and a
  new object is appended to its table. (References handed out by Python never dangle;
  the properties below assume as much of the argument.)
\<close>

type_synonym ref = nat

record store =
  row_objects :: "string list list"
  board_objects :: "ref list list"

text \<open>The board a reference denotes: the contents of the rows it refers to.\<close>

definition board_value :: "store \<Rightarrow> ref \<Rightarrow> board" where
  "board_value s board = map (\<lambda>a. row_objects s ! a) (board_objects s ! board)"

definition valid_board_ref :: "store \<Rightarrow> ref \<Rightarrow> bool" where
  "valid_board_ref s board \<longleftrightarrow>
     board < length (board_objects s)
     \<and> list_all (\<lambda>a. a < length (row_objects s)) (board_objects s ! board)"

text \<open>\<open>[row[:] for row in board]\<close>: each row is copied into a new row object, in order.\<close>

fun copy_rows :: "store \<Rightarrow> ref list \<Rightarrow> store \<times> ref list" where
  "copy_rows s [] = (s, [])"
| "copy_rows s (a # rest) =
     (let s1 = s\<lparr>row_objects := row_objects s @ [row_objects s ! a]\<rparr>;
          (s2, copies) = copy_rows s1 rest
      in (s2, length (row_objects s) # copies))"

text \<open>
  The body of \<open>make_move\<close>: the copies become a new board object, then
  \<open>new_board[move.row][move.col] = player\<close> writes into the row object that the new board
  refers to.
\<close>

definition make_move_store :: "store \<Rightarrow> ref \<Rightarrow> move \<Rightarrow> string \<Rightarrow> error + (store \<times> ref)" where
  "make_move_store s board m player =
     (let (s1, copies) = copy_rows s (board_objects s ! board);
          new_board = length (board_objects s1);
          s2 = s1\<lparr>board_objects := board_objects s1 @ [copies]\<rparr>
      in if row m < length (board_objects s2 ! new_board) then
           (let a = board_objects s2 ! new_board ! row m
            in if col m < length (row_objects s2 ! a)
               then Inr (s2\<lparr>row_objects :=
                              (row_objects s2)[a := (row_objects s2 ! a)[col m := player]]\<rparr>,
                         new_board)
               else Inl IndexError)
         else Inl IndexError)"

text \<open>A store holding the board of the single-move scenario, for the examples.\<close>

definition store_single_empty :: store where
  "store_single_empty =
     \<lparr>row_objects = [[''X'', ''O'', ''X''], [''O'', ''X'', ''O''], [''O'', ''X'', '''']],
      board_objects = [[0, 1, 2]]\<rparr>"

text \<open>
  The exact value of a move: the position it leads to, with the side to move placing
  its mark, has the minimax score \<open>v\<close> one level deeper for the other side.
\<close>

definition move_value :: "board \<Rightarrow> int \<Rightarrow> bool \<Rightarrow> int \<Rightarrow> move \<Rightarrow> score \<Rightarrow> bool" where
  "move_value b d ai md m v \<longleftrightarrow>
     (\<exists>nb n. make_move b m (if ai then AI_PLAYER else HUMAN_PLAYER) = Inr nb
        \<and> returns (minimax nb (d + 1) (\<not> ai) md) v n)"

section \<open>Board rules engine: properties\<close>

lemma scan_order_eq:
  "scan_order = [(0,0),(0,1),(0,2),(1,0),(1,1),(1,2),(2,0),(2,1),(2,2)]"
  by code_simp

lemma set_scan_order: "(r, c) \<in> set scan_order \<longleftrightarrow> r < 3 \<and> c < 3"
  by (force simp: scan_order_def)

lemma board_3x3_row: "board_3x3 b \<Longrightarrow> r < 3 \<Longrightarrow> length (b ! r) = 3"
  by (simp add: board_3x3_def list_all_length)

lemma cell_3x3: "board_3x3 b \<Longrightarrow> r < 3 \<Longrightarrow> c < 3 \<Longrightarrow> cell b r c = Inr (b ! r ! c)"
  by (simp add: cell_def board_3x3_row) (simp add: board_3x3_def)

lemma get_available_moves_loop_3x3:
  "board_3x3 b \<Longrightarrow> \<forall>(r, c) \<in> set ps. r < 3 \<and> c < 3 \<Longrightarrow>
   get_available_moves_loop b ps acc =
     Inr (acc @ map (\<lambda>(r, c). Move r c) (filter (\<lambda>(r, c). b ! r ! c = '''') ps))"
  by (induction ps arbitrary: acc) (auto simp: cell_3x3)

lemma get_available_moves_3x3:
  "board_3x3 b \<Longrightarrow> get_available_moves b = Inr (map (\<lambda>(r, c). Move r c) (empty_cells b))"
  unfolding get_available_moves_def empty_cells_def
  by (subst get_available_moves_loop_3x3) (auto simp: set_scan_order)

lemma coords_Move: "map coords (map (\<lambda>(r, c). Move r c) ps) = ps"
  by (induction ps) (auto simp: Move_def coords_def)

lemma set_empty_cells: "(r, c) \<in> set (empty_cells b) \<longleftrightarrow> r < 3 \<and> c < 3 \<and> b ! r ! c = ''''"
  by (auto simp: empty_cells_def set_scan_order)

lemma board_3x3_examples:
  "board_3x3 board_single_empty" "board_3x3 board_two_lines"
  "board_3x3 board_x_won" "board_3x3 board_two_empty"
  by (simp_all add: board_3x3_def board_single_empty_def board_two_lines_def
      board_x_won_def board_two_empty_def)

text \<open>
  C7. On every 3x3 board \<open>get_available_moves\<close> returns, without raising, a sequence whose
  (row, col) pairs are exactly the empty cells: a pair is in the sequence iff it is a cell
  of the board that holds the empty string, no pair occurs twice, and the pairs are in
  row-major order (strictly increasing by row, then by column).
\<close>

theorem get_available_moves_exact:
  assumes "board_3x3 b"
  shows "\<exists>ms. get_available_moves b = Inr ms
           \<and> (\<forall>r c. (r, c) \<in> set (map coords ms) \<longleftrightarrow> r < 3 \<and> c < 3 \<and> b ! r ! c = '''')
           \<and> distinct (map coords ms)
           \<and> sorted_wrt row_major (map coords ms)"
proof -
  let ?ms = "map (\<lambda>(r, c). Move r c) (empty_cells b)"
  have c: "map coords ?ms = empty_cells b"
    by (rule coords_Move)
  have "distinct scan_order"
    by (simp add: scan_order_eq)
  then have d: "distinct (empty_cells b)"
    by (simp add: empty_cells_def)
  have "sorted_wrt row_major scan_order"
    by (simp add: scan_order_eq row_major_def)
  then have s: "sorted_wrt row_major (empty_cells b)"
    unfolding empty_cells_def by (rule sorted_wrt_filter)
  have m: "\<forall>r c. (r, c) \<in> set (empty_cells b) \<longleftrightarrow> r < 3 \<and> c < 3 \<and> b ! r ! c = ''''"
    by (simp add: set_empty_cells)
  show ?thesis
    using get_available_moves_3x3 [OF assms] d s m
    by (intro exI [of _ ?ms]) (simp only: c simp_thms)
qed

theorem get_available_moves_exact_witness:
  "board_3x3 board_single_empty
   \<and> (\<exists>ms. get_available_moves board_single_empty = Inr ms
        \<and> (\<forall>r c. (r, c) \<in> set (map coords ms) \<longleftrightarrow>
               r < 3 \<and> c < 3 \<and> board_single_empty ! r ! c = '''')
        \<and> distinct (map coords ms)
        \<and> sorted_wrt row_major (map coords ms))"
  using get_available_moves_exact [of board_single_empty] board_3x3_examples(1)
  by blast

lemma winning_combinations_range:
  "combination \<in> set winning_combinations \<Longrightarrow>
     combination \<noteq> [] \<and> (\<forall>(r, c) \<in> set combination. r < 3 \<and> c < 3)"
  by (auto simp: winning_combinations_def)

lemma cells_of_3x3:
  "board_3x3 b \<Longrightarrow> \<forall>(r, c) \<in> set ps. r < 3 \<and> c < 3 \<Longrightarrow>
   cells_of b ps = Inr (map (\<lambda>(r, c). b ! r ! c) ps)"
  by (induction ps) (auto simp: cell_3x3)

lemma list_all_cells:
  "list_all (\<lambda>(r, c). b ! r ! c = x) ps \<longleftrightarrow> list_all (\<lambda>y. y = x) (map (\<lambda>(r, c). b ! r ! c) ps)"
  by (induction ps) auto

lemma line_of_Cons:
  "line_of b x (combination # rest) \<longleftrightarrow>
     list_all (\<lambda>(r, c). b ! r ! c = x) combination \<or> line_of b x rest"
  by (simp add: line_of_def)

lemma check_winner_loop_3x3:
  assumes "board_3x3 b"
    and "\<forall>combination \<in> set combos. combination \<noteq> [] \<and> (\<forall>(r, c) \<in> set combination. r < 3 \<and> c < 3)"
  shows "\<exists>w. check_winner_loop b combos = Inr w
           \<and> (w = None \<longrightarrow> (\<forall>x. x \<noteq> '''' \<longrightarrow> \<not> line_of b x combos))
           \<and> (\<forall>x. w = Some x \<longrightarrow> x \<noteq> '''' \<and> line_of b x combos)"
  using assms(2)
proof (induction combos)
  case Nil
  show ?case by (simp add: line_of_def)
next
  case (Cons combination rest)
  let ?cs = "map (\<lambda>(r, c). b ! r ! c) combination"
  have "combination \<noteq> []"
    using Cons.prems by simp
  then obtain c0 cs where cs: "?cs = c0 # cs"
    by (cases combination) auto
  have "cells_of b combination = Inr ?cs"
    using Cons.prems assms(1) by (intro cells_of_3x3) auto
  then have step: "check_winner_loop b (combination # rest) =
      (if c0 \<noteq> '''' \<and> list_all (\<lambda>c. c = c0) (c0 # cs) then Inr (Some c0)
       else check_winner_loop b rest)"
    by (simp add: cs)
  show ?case
  proof (cases "c0 \<noteq> '''' \<and> list_all (\<lambda>c. c = c0) (c0 # cs)")
    case True
    then have "list_all (\<lambda>(r, c). b ! r ! c = c0) combination"
      by (simp add: list_all_cells cs)
    then have "line_of b c0 (combination # rest)"
      by (simp add: line_of_Cons)
    moreover have "check_winner_loop b (combination # rest) = Inr (Some c0)"
      by (subst step) (use True in simp)
    ultimately show ?thesis
      using True by auto
  next
    case False
    have no: "\<not> list_all (\<lambda>(r, c). b ! r ! c = x) combination" if "x \<noteq> ''''" for x
      using False that by (auto simp: list_all_cells cs)
    obtain w where w: "check_winner_loop b rest = Inr w"
      "w = None \<longrightarrow> (\<forall>x. x \<noteq> '''' \<longrightarrow> \<not> line_of b x rest)"
      "\<forall>x. w = Some x \<longrightarrow> x \<noteq> '''' \<and> line_of b x rest"
      using Cons by auto
    have "check_winner_loop b (combination # rest) = Inr w"
      by (subst step) (use False w(1) in auto)
    moreover have "w = None \<longrightarrow> (\<forall>x. x \<noteq> '''' \<longrightarrow> \<not> line_of b x (combination # rest))"
      using w(2) no by (simp add: line_of_Cons)
    moreover have "\<forall>x. w = Some x \<longrightarrow> x \<noteq> '''' \<and> line_of b x (combination # rest)"
      using w(3) by (simp add: line_of_Cons)
    ultimately show ?thesis
      by blast
  qed
qed

lemma check_winner_3x3:
  assumes "board_3x3 b"
  shows "\<exists>w. check_winner b = Inr w
           \<and> (w = None \<longrightarrow> (\<forall>x. x \<noteq> '''' \<longrightarrow> \<not> occupies_line b x))
           \<and> (\<forall>x. w = Some x \<longrightarrow> x \<noteq> '''' \<and> occupies_line b x)"
proof -
  have r: "\<forall>combination \<in> set winning_combinations.
      combination \<noteq> [] \<and> (\<forall>(r, c) \<in> set combination. r < 3 \<and> c < 3)"
    using winning_combinations_range by blast
  show ?thesis
    using check_winner_loop_3x3 [OF assms r]
    by (simp only: check_winner_def occupies_line_def)
qed

lemma valid_cells_nth:
  "board_3x3 b \<Longrightarrow> valid_cells b \<Longrightarrow> r < 3 \<Longrightarrow> c < 3 \<Longrightarrow>
   b ! r ! c = ''X'' \<or> b ! r ! c = ''O'' \<or> b ! r ! c = ''''"
  by (simp add: board_3x3_def valid_cells_def list_all_length)

lemma occupies_line_valid:
  assumes "board_3x3 b" "valid_cells b" "occupies_line b x"
  shows "x = ''X'' \<or> x = ''O'' \<or> x = ''''"
proof -
  obtain combination where c: "combination \<in> set winning_combinations"
      "list_all (\<lambda>(r, c). b ! r ! c = x) combination"
    using assms(3) by (auto simp: occupies_line_def line_of_def list_ex_iff)
  have "combination \<noteq> []" "\<forall>(r, c) \<in> set combination. r < 3 \<and> c < 3"
    using winning_combinations_range [OF c(1)] by auto
  then obtain r k rest where "combination = (r, k) # rest" "r < 3" "k < 3"
    by (cases combination) auto
  then have "b ! r ! k = x" "r < 3" "k < 3"
    using c(2) by auto
  then show ?thesis
    using valid_cells_nth [OF assms(1,2), of r k] by auto
qed

lemma check_winner_cases:
  assumes "board_3x3 b" "valid_cells b"
  shows "(occupies_line b ''O'' \<and> \<not> occupies_line b ''X'' \<longrightarrow> check_winner b = Inr (Some ''O''))
       \<and> (occupies_line b ''X'' \<and> \<not> occupies_line b ''O'' \<longrightarrow> check_winner b = Inr (Some ''X''))
       \<and> (\<not> occupies_line b ''X'' \<and> \<not> occupies_line b ''O'' \<longrightarrow> check_winner b = Inr None)"
proof -
  obtain w where w: "check_winner b = Inr w"
      "w = None \<longrightarrow> (\<forall>x. x \<noteq> '''' \<longrightarrow> \<not> occupies_line b x)"
      "\<forall>x. w = Some x \<longrightarrow> x \<noteq> '''' \<and> occupies_line b x"
    using check_winner_3x3 [OF assms(1)] by blast
  have v: "x = ''X'' \<or> x = ''O''" if "w = Some x" for x
    using w(3) that occupies_line_valid [OF assms, of x] by blast
  show ?thesis
  proof (cases w)
    case None
    then show ?thesis
      using w by auto
  next
    case (Some x)
    then show ?thesis
      using w(1) w(3) v [OF Some] by auto
  qed
qed

lemma board_full_iff:
  assumes "board_3x3 b"
  shows "list_all (\<lambda>r. '''' \<notin> set r) b \<longleftrightarrow> empty_cells b = []"
proof -
  have "empty_cells b = [] \<longleftrightarrow> (\<forall>r < 3. \<forall>c < 3. b ! r ! c \<noteq> '''')"
    by (auto simp: empty_cells_def filter_empty_conv set_scan_order)
  moreover have "list_all (\<lambda>r. '''' \<notin> set r) b \<longleftrightarrow> (\<forall>r < 3. \<forall>c < 3. b ! r ! c \<noteq> '''')"
    using assms board_3x3_row [OF assms]
    by (auto simp: list_all_length in_set_conv_nth board_3x3_def)
  ultimately show ?thesis
    by simp
qed

lemma is_draw_None:
  "check_winner b = Inr None \<Longrightarrow> is_draw b = Inr (list_all (\<lambda>r. '''' \<notin> set r) b)"
  by (simp add: is_draw_def)





lemma make_move_3x3:
  assumes "board_3x3 b" "row m < 3" "col m < 3"
  shows "\<exists>nb. make_move b m p = Inr nb \<and> board_3x3 nb"
proof -
  let ?nb = "b[row m := (b ! row m)[col m := p]]"
  have l: "length b = 3" "length (b ! row m) = 3"
    using assms board_3x3_row [OF assms(1,2)] by (simp_all add: board_3x3_def)
  then have "make_move b m p = Inr ?nb"
    using assms(2,3) by (simp add: make_move_def)
  moreover have "board_3x3 ?nb"
    using assms(1,2) l by (auto simp: board_3x3_def list_all_length nth_list_update)
  ultimately show ?thesis
    by blast
qed

lemma available_moves_range:
  assumes "board_3x3 b" "get_available_moves b = Inr ms" "m \<in> set ms"
  shows "row m < 3 \<and> col m < 3"
  using assms by (auto simp: get_available_moves_3x3 set_empty_cells Move_def)

lemma calculate_position_value_3x3:
  "board_3x3 b \<Longrightarrow> \<exists>v. calculate_position_value b = Inr v"
  by (simp add: calculate_position_value_def cell_3x3)

lemma is_draw_3x3: "board_3x3 b \<Longrightarrow> \<exists>g. is_draw b = Inr g"
  using check_winner_3x3 [of b] by (auto simp: is_draw_def split: option.splits)

lemma evaluate_position_3x3: "board_3x3 b \<Longrightarrow> \<exists>v. evaluate_position b depth = Inr v"
  using check_winner_3x3 [of b] is_draw_3x3 [of b] calculate_position_value_3x3 [of b]
  by (auto simp: evaluate_position_def split: bool.splits)

lemma is_game_over_3x3:
  assumes "board_3x3 b"
  shows "\<exists>g. is_game_over b = Inr g \<and> (\<not> g \<longrightarrow> empty_cells b \<noteq> [])"
proof -
  obtain w where w: "check_winner b = Inr w"
    using check_winner_3x3 [OF assms] by blast
  show ?thesis
  proof (cases w)
    case None
    then show ?thesis
      using w is_draw_None [of b] board_full_iff [OF assms] by (simp add: is_game_over_def)
  next
    case (Some x)
    then show ?thesis
      using w by (auto simp: is_game_over_def)
  qed
qed

lemma should_stop_search_3x3:
  assumes "board_3x3 b"
  shows "\<exists>s. should_stop_search b depth max_depth = Inr s
           \<and> (\<not> s \<longrightarrow> depth < max_depth \<and> empty_cells b \<noteq> [])
           \<and> (max_depth \<le> depth \<longrightarrow> s)"
  using is_game_over_3x3 [OF assms]
  by (auto simp: should_stop_search_def split: bool.splits)

section \<open>Search engine: properties\<close>

declare minimax.simps [simp del] alpha_beta.simps [simp del]

lemma returns_unique:
  assumes "returns f v n" "returns f v' n'"
  shows "v = v' \<and> n = n'"
proof -
  obtain mv st1 where 1: "f undefined = Inr ((mv, v), st1)"
      "nodes_explored st1 = nodes_explored (undefined :: search_stats) + n"
    using assms(1) unfolding returns_def by blast
  obtain mv' st2 where 2: "f undefined = Inr ((mv', v'), st2)"
      "nodes_explored st2 = nodes_explored (undefined :: search_stats) + n'"
    using assms(2) unfolding returns_def by blast
  show ?thesis
    using 1 2 by simp
qed

lemma window_bound_start:
  "alpha = max alpha0 bs' \<Longrightarrow> alpha < beta \<Longrightarrow> bs \<le> bs' \<Longrightarrow> (alpha0 < bs' \<longrightarrow> bs = bs') \<Longrightarrow>
   window_bound alpha0 beta bs bs'"
  by (auto simp: window_bound_def max_def split: if_splits)

lemma window_bound_cutoff_max:
  "alpha = max alpha0 bs' \<Longrightarrow> alpha < beta \<Longrightarrow> window_bound alpha beta vm rm \<Longrightarrow>
   beta \<le> max alpha rm \<Longrightarrow> vm \<le> v \<Longrightarrow>
   window_bound alpha0 beta v (if bs' < rm then rm else bs')"
  by (auto simp: window_bound_def max_def split: if_splits)

lemma window_bound_continue_max:
  "alpha = max alpha0 bs' \<Longrightarrow> alpha < beta \<Longrightarrow> bs \<le> bs' \<Longrightarrow> (alpha0 < bs' \<longrightarrow> bs = bs') \<Longrightarrow>
   window_bound alpha beta vm rm \<Longrightarrow> \<not> beta \<le> max alpha rm \<Longrightarrow>
   max alpha rm = max alpha0 (if bs' < rm then rm else bs')
   \<and> max alpha rm < beta
   \<and> (if bs < vm then vm else bs) \<le> (if bs' < rm then rm else bs')
   \<and> (alpha0 < (if bs' < rm then rm else bs') \<longrightarrow>
        (if bs < vm then vm else bs) = (if bs' < rm then rm else bs'))"
  by (auto simp: window_bound_def max_def split: if_splits)

lemma window_bound_start_min:
  "beta = min beta0 bs' \<Longrightarrow> alpha < beta \<Longrightarrow> bs' \<le> bs \<Longrightarrow> (bs' < beta0 \<longrightarrow> bs = bs') \<Longrightarrow>
   window_bound alpha beta0 bs bs'"
  by (auto simp: window_bound_def min_def split: if_splits)

lemma window_bound_cutoff_min:
  "beta = min beta0 bs' \<Longrightarrow> alpha < beta \<Longrightarrow> window_bound alpha beta vm rm \<Longrightarrow>
   min beta rm \<le> alpha \<Longrightarrow> v \<le> vm \<Longrightarrow>
   window_bound alpha beta0 v (if rm < bs' then rm else bs')"
  by (auto simp: window_bound_def min_def split: if_splits)

lemma window_bound_continue_min:
  "beta = min beta0 bs' \<Longrightarrow> alpha < beta \<Longrightarrow> bs' \<le> bs \<Longrightarrow> (bs' < beta0 \<longrightarrow> bs = bs') \<Longrightarrow>
   window_bound alpha beta vm rm \<Longrightarrow> \<not> min beta rm \<le> alpha \<Longrightarrow>
   min beta rm = min beta0 (if rm < bs' then rm else bs')
   \<and> alpha < min beta rm
   \<and> (if rm < bs' then rm else bs') \<le> (if vm < bs then vm else bs)
   \<and> ((if rm < bs' then rm else bs') < beta0 \<longrightarrow>
        (if vm < bs then vm else bs) = (if rm < bs' then rm else bs'))"
  by (auto simp: window_bound_def min_def split: if_splits)

lemma minimax_stop:
  "should_stop_search b d md = Inr True \<Longrightarrow> evaluate_position b d = Inr v \<Longrightarrow>
   minimax b d ai md st = Inr ((None, Num v), visit st d)"
  by (simp add: minimax.simps)

lemma minimax_node:
  "should_stop_search b d md = Inr False \<Longrightarrow> get_available_moves b = Inr ms \<Longrightarrow>
   minimax b d ai md st =
     (if ai then maximize_score b d ms md None NegInf (visit st d)
      else minimize_score b d ms md None PosInf (visit st d))"
  by (simp add: minimax.simps)

lemma alpha_beta_stop:
  "should_stop_search b d md = Inr True \<Longrightarrow> evaluate_position b d = Inr v \<Longrightarrow>
   alpha_beta b d alpha beta ai md st = Inr ((None, Num v), visit st d)"
  by (simp add: alpha_beta.simps)

lemma alpha_beta_node:
  "should_stop_search b d md = Inr False \<Longrightarrow> get_available_moves b = Inr ms \<Longrightarrow>
   alpha_beta b d alpha beta ai md st =
     (if ai then maximize_with_pruning b d ms alpha beta md None NegInf (visit st d)
      else minimize_with_pruning b d ms alpha beta md None PosInf (visit st d))"
  by (simp add: alpha_beta.simps)

lemma nodes_explored_visit [simp]: "nodes_explored (visit st d) = nodes_explored st + 1"
  by (simp add: visit_def)

lemma returns_maximize_step:
  assumes "make_move b m AI_PLAYER = Inr nb"
    and "returns (minimax nb (d + 1) False md) vm nm"
    and "returns (maximize_score b d rest md (if bs < vm then Some m else bm)
           (if bs < vm then vm else bs)) v n"
  shows "returns (maximize_score b d (m # rest) md bm bs) v (nm + n)"
  unfolding returns_def
proof
  fix st
  obtain mv1 st1 where 1: "minimax nb (d + 1) False md st = Inr ((mv1, vm), st1)"
      "nodes_explored st1 = nodes_explored st + nm"
    using assms(2) unfolding returns_def by blast
  obtain mv st' where 2: "maximize_score b d rest md (if bs < vm then Some m else bm)
        (if bs < vm then vm else bs) st1 = Inr ((mv, v), st')"
      "nodes_explored st' = nodes_explored st1 + n"
    using assms(3) unfolding returns_def by blast
  show "\<exists>mv st'. maximize_score b d (m # rest) md bm bs st = Inr ((mv, v), st')
          \<and> nodes_explored st' = nodes_explored st + (nm + n)"
    using assms(1) 1 2 by (cases "bs < vm") simp_all
qed

lemma returns_pruning_cutoff_max:
  assumes "make_move b m AI_PLAYER = Inr nb"
    and "returns (alpha_beta nb (d + 1) alpha beta False md) rm km"
    and "beta \<le> max alpha rm"
  shows "returns (maximize_with_pruning b d (m # rest) alpha beta md bm bs')
           (if bs' < rm then rm else bs') km"
  unfolding returns_def
proof
  fix st
  obtain mv1 st1 where 1: "alpha_beta nb (d + 1) alpha beta False md st = Inr ((mv1, rm), st1)"
      "nodes_explored st1 = nodes_explored st + km"
    using assms(2) unfolding returns_def by blast
  show "\<exists>mv st'. maximize_with_pruning b d (m # rest) alpha beta md bm bs' st =
            Inr ((mv, if bs' < rm then rm else bs'), st')
          \<and> nodes_explored st' = nodes_explored st + km"
    using assms(1,3) 1 by simp
qed

lemma returns_pruning_continue_max:
  assumes "make_move b m AI_PLAYER = Inr nb"
    and "returns (alpha_beta nb (d + 1) alpha beta False md) rm km"
    and "\<not> beta \<le> max alpha rm"
    and "returns (maximize_with_pruning b d rest (max alpha rm) beta md
           (if bs' < rm then Some m else bm) (if bs' < rm then rm else bs')) r k"
  shows "returns (maximize_with_pruning b d (m # rest) alpha beta md bm bs') r (km + k)"
  unfolding returns_def
proof
  fix st
  obtain mv1 st1 where 1: "alpha_beta nb (d + 1) alpha beta False md st = Inr ((mv1, rm), st1)"
      "nodes_explored st1 = nodes_explored st + km"
    using assms(2) unfolding returns_def by blast
  obtain mv st' where 2: "maximize_with_pruning b d rest (max alpha rm) beta md
        (if bs' < rm then Some m else bm) (if bs' < rm then rm else bs') st1 = Inr ((mv, r), st')"
      "nodes_explored st' = nodes_explored st1 + k"
    using assms(4) unfolding returns_def by blast
  show "\<exists>mv st'. maximize_with_pruning b d (m # rest) alpha beta md bm bs' st = Inr ((mv, r), st')
          \<and> nodes_explored st' = nodes_explored st + (km + k)"
    using assms(1,3) 1 2 by simp
qed

lemma finite_score_simps [simp]:
  "finite_score (Num i)" "\<not> finite_score NegInf" "\<not> finite_score PosInf"
  by (simp_all add: finite_score_def less_score_def)

lemma maximize_score_returns:
  assumes "\<forall>m \<in> set ms. \<exists>nb vm nm. make_move b m AI_PLAYER = Inr nb \<and> finite_score vm
             \<and> returns (minimax nb (d + 1) False md) vm nm"
  shows "\<exists>v n. (\<forall>bm. returns (maximize_score b d ms md bm bs) v n)
           \<and> bs \<le> v \<and> (bs < PosInf \<longrightarrow> v < PosInf) \<and> (ms \<noteq> [] \<longrightarrow> NegInf < v)"
  using assms
proof (induction ms arbitrary: bs)
  case Nil
  show ?case
    by (intro exI [of _ bs] exI [of _ 0]) (simp add: returns_def)
next
  case (Cons m rest)
  obtain nb vm nm where c: "make_move b m AI_PLAYER = Inr nb" "finite_score vm"
      "returns (minimax nb (d + 1) False md) vm nm"
    using Cons.prems by auto
  let ?bs1 = "if bs < vm then vm else bs"
  obtain v n where r: "\<forall>bm. returns (maximize_score b d rest md bm ?bs1) v n"
      "?bs1 \<le> v" "?bs1 < PosInf \<longrightarrow> v < PosInf"
    using Cons.IH [of ?bs1] Cons.prems by auto
  have "\<forall>bm. returns (maximize_score b d (m # rest) md bm bs) v (nm + n)"
    using returns_maximize_step [OF c(1) c(3)] r(1) by blast
  moreover have "bs \<le> v" "NegInf < v" "bs < PosInf \<longrightarrow> v < PosInf"
    using r(2,3) c(2) by (auto simp: finite_score_def split: if_splits)
  ultimately show ?case
    by blast
qed

lemma searches_agree_minimax:
  "searches_agree nb d ai md \<Longrightarrow>
   \<exists>vm nm. finite_score vm \<and> returns (minimax nb d ai md) vm nm"
  unfolding searches_agree_def by blast

lemma maximize_with_pruning_returns:
  assumes "\<forall>m \<in> set ms. \<exists>nb. make_move b m AI_PLAYER = Inr nb
             \<and> searches_agree nb (d + 1) False md"
    and "alpha = max alpha0 bs'" and "alpha < beta" and "bs \<le> bs'"
    and "alpha0 < bs' \<longrightarrow> bs = bs'" and "bs' < PosInf"
    and "\<forall>bm. returns (maximize_score b d ms md bm bs) v n"
  shows "\<exists>r k. (\<forall>bm. returns (maximize_with_pruning b d ms alpha beta md bm bs') r k)
           \<and> k \<le> n \<and> r < PosInf \<and> (ms \<noteq> [] \<longrightarrow> NegInf < r)
           \<and> window_bound alpha0 beta v r"
  using assms
proof (induction ms arbitrary: bs bs' alpha v n)
  case Nil
  have "returns (maximize_score b d [] md None bs) bs 0"
    by (simp add: returns_def)
  then have v: "v = bs" "n = 0"
    using Nil.prems(7) returns_unique by blast+
  have "window_bound alpha0 beta v bs'"
    unfolding v using Nil.prems(2-5) by (rule window_bound_start)
  moreover have "\<forall>bm. returns (maximize_with_pruning b d [] alpha beta md bm bs') bs' 0"
    by (simp add: returns_def)
  ultimately show ?case
    using Nil.prems(6) by blast
next
  case (Cons m rest)
  obtain nb where nb: "make_move b m AI_PLAYER = Inr nb" "searches_agree nb (d + 1) False md"
    using Cons.prems(1) by auto
  obtain vm nm rm km where c: "finite_score vm" "returns (minimax nb (d + 1) False md) vm nm"
      "returns (alpha_beta nb (d + 1) alpha beta False md) rm km" "km \<le> nm"
      "finite_score rm" "window_bound alpha beta vm rm"
    using nb(2) Cons.prems(3) unfolding searches_agree_def by blast
  let ?bs1 = "if bs < vm then vm else bs"
  let ?bs1' = "if bs' < rm then rm else bs'"
  have children: "\<forall>m \<in> set rest. \<exists>nb vm nm. make_move b m AI_PLAYER = Inr nb \<and> finite_score vm
      \<and> returns (minimax nb (d + 1) False md) vm nm"
    using Cons.prems(1) searches_agree_minimax by fastforce
  obtain v2 n2 where r: "\<forall>bm. returns (maximize_score b d rest md bm ?bs1) v2 n2" "?bs1 \<le> v2"
    using maximize_score_returns [OF children, of ?bs1] by blast
  have "returns (maximize_score b d (m # rest) md None bs) v2 (nm + n2)"
    using returns_maximize_step [OF nb(1) c(2)] r(1) by blast
  then have v: "v = v2" "n = nm + n2"
    using Cons.prems(7) returns_unique by blast+
  have fin: "?bs1' < PosInf" "NegInf < ?bs1'"
    using c(5) Cons.prems(6) by (auto simp: finite_score_def)
  show ?case
  proof (cases "beta \<le> max alpha rm")
    case True
    have "\<forall>bm. returns (maximize_with_pruning b d (m # rest) alpha beta md bm bs') ?bs1' km"
      using returns_pruning_cutoff_max [OF nb(1) c(3) True] by blast
    moreover have "vm \<le> v"
      using r(2) v(1) by (auto split: if_splits)
    then have "window_bound alpha0 beta v ?bs1'"
      using Cons.prems(2,3) c(6) True by (intro window_bound_cutoff_max)
    moreover have "km \<le> n"
      using c(4) v(2) by simp
    ultimately show ?thesis
      using fin by blast
  next
    case False
    note inv = window_bound_continue_max [OF Cons.prems(2-5) c(6) False]
    have rest: "\<forall>m \<in> set rest. \<exists>nb. make_move b m AI_PLAYER = Inr nb
        \<and> searches_agree nb (d + 1) False md"
      using Cons.prems(1) by simp
    obtain r2 k2 where ab:
        "\<forall>bm. returns (maximize_with_pruning b d rest (max alpha rm) beta md bm ?bs1') r2 k2"
        "k2 \<le> n2" "r2 < PosInf" "window_bound alpha0 beta v2 r2"
        "rest \<noteq> [] \<longrightarrow> NegInf < r2"
      using Cons.IH [OF rest _ _ _ _ fin(1) r(1), of "max alpha rm"] inv
      by blast
    have "\<forall>bm. returns (maximize_with_pruning b d (m # rest) alpha beta md bm bs') r2 (km + k2)"
      using returns_pruning_continue_max [OF nb(1) c(3) False] ab(1) by blast
    moreover have "km + k2 \<le> n"
      using c(4) ab(2) v(2) by simp
    moreover have "NegInf < r2"
    proof (cases rest)
      case Nil
      have "returns (maximize_with_pruning b d [] (max alpha rm) beta md None ?bs1') ?bs1' 0"
        by (simp add: returns_def)
      then have "r2 = ?bs1'"
        using ab(1) Nil returns_unique by blast
      then show ?thesis
        using fin(2) by simp
    next
      case (Cons a list)
      then show ?thesis
        using ab(5) by simp
    qed
    ultimately show ?thesis
      using ab(3,4) v(1) by blast
  qed
qed

lemma returns_minimize_step:
  assumes "make_move b m HUMAN_PLAYER = Inr nb"
    and "returns (minimax nb (d + 1) True md) vm nm"
    and "returns (minimize_score b d rest md (if vm < bs then Some m else bm)
           (if vm < bs then vm else bs)) v n"
  shows "returns (minimize_score b d (m # rest) md bm bs) v (nm + n)"
  unfolding returns_def
proof
  fix st
  obtain mv1 st1 where 1: "minimax nb (d + 1) True md st = Inr ((mv1, vm), st1)"
      "nodes_explored st1 = nodes_explored st + nm"
    using assms(2) unfolding returns_def by blast
  obtain mv st' where 2: "minimize_score b d rest md (if vm < bs then Some m else bm)
        (if vm < bs then vm else bs) st1 = Inr ((mv, v), st')"
      "nodes_explored st' = nodes_explored st1 + n"
    using assms(3) unfolding returns_def by blast
  show "\<exists>mv st'. minimize_score b d (m # rest) md bm bs st = Inr ((mv, v), st')
          \<and> nodes_explored st' = nodes_explored st + (nm + n)"
    using assms(1) 1 2 by (cases "vm < bs") simp_all
qed

lemma returns_pruning_cutoff_min:
  assumes "make_move b m HUMAN_PLAYER = Inr nb"
    and "returns (alpha_beta nb (d + 1) alpha beta True md) rm km"
    and "min beta rm \<le> alpha"
  shows "returns (minimize_with_pruning b d (m # rest) alpha beta md bm bs')
           (if rm < bs' then rm else bs') km"
  unfolding returns_def
proof
  fix st
  obtain mv1 st1 where 1: "alpha_beta nb (d + 1) alpha beta True md st = Inr ((mv1, rm), st1)"
      "nodes_explored st1 = nodes_explored st + km"
    using assms(2) unfolding returns_def by blast
  show "\<exists>mv st'. minimize_with_pruning b d (m # rest) alpha beta md bm bs' st =
            Inr ((mv, if rm < bs' then rm else bs'), st')
          \<and> nodes_explored st' = nodes_explored st + km"
    using assms(1,3) 1 by simp
qed

lemma returns_pruning_continue_min:
  assumes "make_move b m HUMAN_PLAYER = Inr nb"
    and "returns (alpha_beta nb (d + 1) alpha beta True md) rm km"
    and "\<not> min beta rm \<le> alpha"
    and "returns (minimize_with_pruning b d rest alpha (min beta rm) md
           (if rm < bs' then Some m else bm) (if rm < bs' then rm else bs')) r k"
  shows "returns (minimize_with_pruning b d (m # rest) alpha beta md bm bs') r (km + k)"
  unfolding returns_def
proof
  fix st
  obtain mv1 st1 where 1: "alpha_beta nb (d + 1) alpha beta True md st = Inr ((mv1, rm), st1)"
      "nodes_explored st1 = nodes_explored st + km"
    using assms(2) unfolding returns_def by blast
  obtain mv st' where 2: "minimize_with_pruning b d rest alpha (min beta rm) md
        (if rm < bs' then Some m else bm) (if rm < bs' then rm else bs') st1 = Inr ((mv, r), st')"
      "nodes_explored st' = nodes_explored st1 + k"
    using assms(4) unfolding returns_def by blast
  show "\<exists>mv st'. minimize_with_pruning b d (m # rest) alpha beta md bm bs' st = Inr ((mv, r), st')
          \<and> nodes_explored st' = nodes_explored st + (km + k)"
    using assms(1,3) 1 2 by simp
qed

lemma minimize_score_returns:
  assumes "\<forall>m \<in> set ms. \<exists>nb vm nm. make_move b m HUMAN_PLAYER = Inr nb \<and> finite_score vm
             \<and> returns (minimax nb (d + 1) True md) vm nm"
  shows "\<exists>v n. (\<forall>bm. returns (minimize_score b d ms md bm bs) v n)
           \<and> v \<le> bs \<and> (NegInf < bs \<longrightarrow> NegInf < v) \<and> (ms \<noteq> [] \<longrightarrow> v < PosInf)"
  using assms
proof (induction ms arbitrary: bs)
  case Nil
  show ?case
    by (intro exI [of _ bs] exI [of _ 0]) (simp add: returns_def)
next
  case (Cons m rest)
  obtain nb vm nm where c: "make_move b m HUMAN_PLAYER = Inr nb" "finite_score vm"
      "returns (minimax nb (d + 1) True md) vm nm"
    using Cons.prems by auto
  let ?bs1 = "if vm < bs then vm else bs"
  obtain v n where r: "\<forall>bm. returns (minimize_score b d rest md bm ?bs1) v n"
      "v \<le> ?bs1" "NegInf < ?bs1 \<longrightarrow> NegInf < v"
    using Cons.IH [of ?bs1] Cons.prems by auto
  have "\<forall>bm. returns (minimize_score b d (m # rest) md bm bs) v (nm + n)"
    using returns_minimize_step [OF c(1) c(3)] r(1) by blast
  moreover have "v \<le> bs" "v < PosInf" "NegInf < bs \<longrightarrow> NegInf < v"
    using r(2,3) c(2) by (auto simp: finite_score_def split: if_splits)
  ultimately show ?case
    by blast
qed

lemma minimize_with_pruning_returns:
  assumes "\<forall>m \<in> set ms. \<exists>nb. make_move b m HUMAN_PLAYER = Inr nb
             \<and> searches_agree nb (d + 1) True md"
    and "beta = min beta0 bs'" and "alpha < beta" and "bs' \<le> bs"
    and "bs' < beta0 \<longrightarrow> bs = bs'" and "NegInf < bs'"
    and "\<forall>bm. returns (minimize_score b d ms md bm bs) v n"
  shows "\<exists>r k. (\<forall>bm. returns (minimize_with_pruning b d ms alpha beta md bm bs') r k)
           \<and> k \<le> n \<and> NegInf < r \<and> (ms \<noteq> [] \<longrightarrow> r < PosInf)
           \<and> window_bound alpha beta0 v r"
  using assms
proof (induction ms arbitrary: bs bs' beta v n)
  case Nil
  have "returns (minimize_score b d [] md None bs) bs 0"
    by (simp add: returns_def)
  then have v: "v = bs" "n = 0"
    using Nil.prems(7) returns_unique by blast+
  have "window_bound alpha beta0 v bs'"
    unfolding v using Nil.prems(2-5) by (rule window_bound_start_min)
  moreover have "\<forall>bm. returns (minimize_with_pruning b d [] alpha beta md bm bs') bs' 0"
    by (simp add: returns_def)
  ultimately show ?case
    using Nil.prems(6) by blast
next
  case (Cons m rest)
  obtain nb where nb: "make_move b m HUMAN_PLAYER = Inr nb" "searches_agree nb (d + 1) True md"
    using Cons.prems(1) by auto
  obtain vm nm rm km where c: "finite_score vm" "returns (minimax nb (d + 1) True md) vm nm"
      "returns (alpha_beta nb (d + 1) alpha beta True md) rm km" "km \<le> nm"
      "finite_score rm" "window_bound alpha beta vm rm"
    using nb(2) Cons.prems(3) unfolding searches_agree_def by blast
  let ?bs1 = "if vm < bs then vm else bs"
  let ?bs1' = "if rm < bs' then rm else bs'"
  have children: "\<forall>m \<in> set rest. \<exists>nb vm nm. make_move b m HUMAN_PLAYER = Inr nb \<and> finite_score vm
      \<and> returns (minimax nb (d + 1) True md) vm nm"
    using Cons.prems(1) searches_agree_minimax by fastforce
  obtain v2 n2 where r: "\<forall>bm. returns (minimize_score b d rest md bm ?bs1) v2 n2" "v2 \<le> ?bs1"
    using minimize_score_returns [OF children, of ?bs1] by blast
  have "returns (minimize_score b d (m # rest) md None bs) v2 (nm + n2)"
    using returns_minimize_step [OF nb(1) c(2)] r(1) by blast
  then have v: "v = v2" "n = nm + n2"
    using Cons.prems(7) returns_unique by blast+
  have fin: "NegInf < ?bs1'" "?bs1' < PosInf"
    using c(5) Cons.prems(6) by (auto simp: finite_score_def)
  show ?case
  proof (cases "min beta rm \<le> alpha")
    case True
    have "\<forall>bm. returns (minimize_with_pruning b d (m # rest) alpha beta md bm bs') ?bs1' km"
      using returns_pruning_cutoff_min [OF nb(1) c(3) True] by blast
    moreover have "v \<le> vm"
      using r(2) v(1) by (auto split: if_splits)
    then have "window_bound alpha beta0 v ?bs1'"
      using Cons.prems(2,3) c(6) True by (intro window_bound_cutoff_min)
    moreover have "km \<le> n"
      using c(4) v(2) by simp
    ultimately show ?thesis
      using fin by blast
  next
    case False
    note inv = window_bound_continue_min [OF Cons.prems(2-5) c(6) False]
    have rest: "\<forall>m \<in> set rest. \<exists>nb. make_move b m HUMAN_PLAYER = Inr nb
        \<and> searches_agree nb (d + 1) True md"
      using Cons.prems(1) by simp
    obtain r2 k2 where ab:
        "\<forall>bm. returns (minimize_with_pruning b d rest alpha (min beta rm) md bm ?bs1') r2 k2"
        "k2 \<le> n2" "NegInf < r2" "window_bound alpha beta0 v2 r2"
        "rest \<noteq> [] \<longrightarrow> r2 < PosInf"
      using Cons.IH [OF rest _ _ _ _ fin(1) r(1), of "min beta rm"] inv
      by blast
    have "\<forall>bm. returns (minimize_with_pruning b d (m # rest) alpha beta md bm bs') r2 (km + k2)"
      using returns_pruning_continue_min [OF nb(1) c(3) False] ab(1) by blast
    moreover have "km + k2 \<le> n"
      using c(4) ab(2) v(2) by simp
    moreover have "r2 < PosInf"
    proof (cases rest)
      case Nil
      have "returns (minimize_with_pruning b d [] alpha (min beta rm) md None ?bs1') ?bs1' 0"
        by (simp add: returns_def)
      then have "r2 = ?bs1'"
        using ab(1) Nil returns_unique by blast
      then show ?thesis
        using fin(2) by simp
    next
      case (Cons a list)
      then show ?thesis
        using ab(5) by simp
    qed
    ultimately show ?thesis
      using ab(3,4) v(1) by blast
  qed
qed

lemma returns_after_visit:
  assumes "\<And>st. f st = g (visit st d)" and "returns g v n"
  shows "returns f v (Suc n)"
  unfolding returns_def
proof
  fix st
  obtain mv st' where "g (visit st d) = Inr ((mv, v), st')"
      "nodes_explored st' = nodes_explored (visit st d) + n"
    using assms(2) unfolding returns_def by blast
  then show "\<exists>mv st'. f st = Inr ((mv, v), st') \<and> nodes_explored st' = nodes_explored st + Suc n"
    using assms(1) by simp
qed

lemma NegInf_least [simp]: "NegInf \<le> (x :: score)"
  by simp

lemma PosInf_greatest [simp]: "(x :: score) \<le> PosInf"
  by (cases x) simp_all

lemma searches_agree_leaf:
  assumes "should_stop_search b d md = Inr True" and "evaluate_position b d = Inr v"
  shows "searches_agree b d ai md"
proof -
  have "returns (minimax b d ai md) (Num v) 1"
    by (simp add: returns_def minimax_stop [OF assms])
  moreover have "returns (alpha_beta b d alpha beta ai md) (Num v) 1" for alpha beta
    by (simp add: returns_def alpha_beta_stop [OF assms])
  moreover have "window_bound alpha beta (Num v) (Num v)" for alpha beta
    by (simp add: window_bound_def)
  ultimately show ?thesis
    unfolding searches_agree_def
    by (intro exI [of _ "Num v"] exI [of _ 1]) (meson finite_score_simps(1) order_refl)
qed

lemma searches_agree_max_node:
  assumes stop: "should_stop_search b d md = Inr False"
    and moves: "get_available_moves b = Inr ms" "ms \<noteq> []"
    and children: "\<forall>m \<in> set ms. \<exists>nb. make_move b m AI_PLAYER = Inr nb
             \<and> searches_agree nb (d + 1) False md"
  shows "searches_agree b d True md"
proof -
  have c: "\<forall>m \<in> set ms. \<exists>nb vm nm. make_move b m AI_PLAYER = Inr nb \<and> finite_score vm
      \<and> returns (minimax nb (d + 1) False md) vm nm"
    using children searches_agree_minimax by fastforce
  obtain v n where v: "\<forall>bm. returns (maximize_score b d ms md bm NegInf) v n"
      "NegInf < v" "v < PosInf"
    using maximize_score_returns [OF c, of NegInf] moves(2)
    by (auto simp: less_score_def)
  have mm: "returns (minimax b d True md) v (Suc n)"
    using v(1) by (intro returns_after_visit [where d = d and
          g = "maximize_score b d ms md None NegInf"]) (simp_all add: minimax_node [OF stop moves(1)])
  have ab: "\<exists>r k. returns (alpha_beta b d alpha beta True md) r k \<and> k \<le> Suc n
      \<and> finite_score r \<and> window_bound alpha beta v r" if window: "alpha < beta" for alpha beta
  proof -
    have "alpha = max alpha NegInf"
      by (simp add: max_def antisym)
    then obtain r k where r:
        "\<forall>bm. returns (maximize_with_pruning b d ms alpha beta md bm NegInf) r k"
        "k \<le> n" "r < PosInf" "NegInf < r" "window_bound alpha beta v r"
      using maximize_with_pruning_returns [OF children _ window _ _ _ v(1), of alpha NegInf] moves(2)
      by (auto simp: less_score_def)
    have "returns (alpha_beta b d alpha beta True md) r (Suc k)"
      using r(1) by (intro returns_after_visit [where d = d and
            g = "maximize_with_pruning b d ms alpha beta md None NegInf"])
        (simp_all add: alpha_beta_node [OF stop moves(1)])
    then show ?thesis
      using r by (auto simp: finite_score_def)
  qed
  show ?thesis
    unfolding searches_agree_def using mm ab v(2,3) by (auto simp: finite_score_def)
qed

lemma searches_agree_min_node:
  assumes stop: "should_stop_search b d md = Inr False"
    and moves: "get_available_moves b = Inr ms" "ms \<noteq> []"
    and children: "\<forall>m \<in> set ms. \<exists>nb. make_move b m HUMAN_PLAYER = Inr nb
             \<and> searches_agree nb (d + 1) True md"
  shows "searches_agree b d False md"
proof -
  have c: "\<forall>m \<in> set ms. \<exists>nb vm nm. make_move b m HUMAN_PLAYER = Inr nb \<and> finite_score vm
      \<and> returns (minimax nb (d + 1) True md) vm nm"
    using children searches_agree_minimax by fastforce
  obtain v n where v: "\<forall>bm. returns (minimize_score b d ms md bm PosInf) v n"
      "NegInf < v" "v < PosInf"
    using minimize_score_returns [OF c, of PosInf] moves(2)
    by (auto simp: less_score_def)
  have mm: "returns (minimax b d False md) v (Suc n)"
    using v(1) by (intro returns_after_visit [where d = d and
          g = "minimize_score b d ms md None PosInf"]) (simp_all add: minimax_node [OF stop moves(1)])
  have ab: "\<exists>r k. returns (alpha_beta b d alpha beta False md) r k \<and> k \<le> Suc n
      \<and> finite_score r \<and> window_bound alpha beta v r" if window: "alpha < beta" for alpha beta
  proof -
    have "beta = min beta PosInf"
      by (simp add: min_def antisym)
    then obtain r k where r:
        "\<forall>bm. returns (minimize_with_pruning b d ms alpha beta md bm PosInf) r k"
        "k \<le> n" "r < PosInf" "NegInf < r" "window_bound alpha beta v r"
      using minimize_with_pruning_returns [OF children _ window _ _ _ v(1), of beta PosInf] moves(2)
      by (auto simp: less_score_def)
    have "returns (alpha_beta b d alpha beta False md) r (Suc k)"
      using r(1) by (intro returns_after_visit [where d = d and
            g = "minimize_with_pruning b d ms alpha beta md None PosInf"])
        (simp_all add: alpha_beta_node [OF stop moves(1)])
    then show ?thesis
      using r by (auto simp: finite_score_def)
  qed
  show ?thesis
    unfolding searches_agree_def using mm ab v(2,3) by (auto simp: finite_score_def)
qed

lemma searches_agree_3x3_aux:
  "board_3x3 b \<Longrightarrow> nat (md - d) = k \<Longrightarrow> searches_agree b d ai md"
proof (induction k arbitrary: b d ai rule: less_induct)
  case (less k)
  obtain s where s: "should_stop_search b d md = Inr s"
      "\<not> s \<longrightarrow> d < md \<and> empty_cells b \<noteq> []"
    using should_stop_search_3x3 [OF less.prems(1)] by blast
  show ?case
  proof (cases s)
    case True
    obtain v where "evaluate_position b d = Inr v"
      using evaluate_position_3x3 [OF less.prems(1)] by blast
    then show ?thesis
      using s(1) True by (auto intro: searches_agree_leaf)
  next
    case False
    let ?ms = "map (\<lambda>(r, c). Move r c) (empty_cells b)"
    have ms: "get_available_moves b = Inr ?ms" "?ms \<noteq> []"
      using get_available_moves_3x3 [OF less.prems(1)] s(2) False by simp_all
    have smaller: "nat (md - (d + 1)) < k"
      using s(2) False less.prems(2) by auto
    have child: "\<exists>nb. make_move b m p = Inr nb \<and> searches_agree nb (d + 1) ai' md"
      if "m \<in> set ?ms" for m p ai'
    proof -
      have "row m < 3 \<and> col m < 3"
        using available_moves_range [OF less.prems(1) ms(1) that] .
      then obtain nb where "make_move b m p = Inr nb" "board_3x3 nb"
        using make_move_3x3 [OF less.prems(1)] by blast
      then show ?thesis
        using less.IH [OF smaller _ refl] by blast
    qed
    show ?thesis
    proof (cases ai)
      case True
      then show ?thesis
        using searches_agree_max_node [OF _ ms] s(1) False child by auto
    next
      case ai: False
      then show ?thesis
        using searches_agree_min_node [OF _ ms] s(1) False child by auto
    qed
  qed
qed

lemma searches_agree_3x3: "board_3x3 b \<Longrightarrow> searches_agree b d ai md"
  using searches_agree_3x3_aux by blast

text \<open>
  C9. On every 3x3 board, for every starting depth, side to move and depth limit, both
  searches return, and \<open>alpha_beta\<close> started with the window \<open>(-inf, +inf)\<close> adds to
  \<open>nodes_explored\<close> (one per invocation) at most what \<open>minimax\<close> adds.
\<close>

theorem alpha_beta_nodes_le_minimax:
  assumes "board_3x3 b"
  shows "\<exists>res1 st1' res2 st2' n k.
           minimax b d ai md st1 = Inr (res1, st1')
         \<and> alpha_beta b d NegInf PosInf ai md st2 = Inr (res2, st2')
         \<and> nodes_explored st1' = nodes_explored st1 + n
         \<and> nodes_explored st2' = nodes_explored st2 + k
         \<and> k \<le> n"
proof -
  obtain v n r k where a: "returns (minimax b d ai md) v n"
      "returns (alpha_beta b d NegInf PosInf ai md) r k" "k \<le> n"
    using searches_agree_3x3 [OF assms, of d ai md] unfolding searches_agree_def
    by (metis finite_score_def order_less_trans)
  show ?thesis
    using a(1,2) a(3) unfolding returns_def by metis
qed

theorem alpha_beta_nodes_le_minimax_witness:
  "board_3x3 board_two_empty
   \<and> (\<exists>res1 st1' res2 st2' n k.
         minimax board_two_empty 0 True 9 fresh_stats = Inr (res1, st1')
       \<and> alpha_beta board_two_empty 0 NegInf PosInf True 9 fresh_stats = Inr (res2, st2')
       \<and> nodes_explored st1' = nodes_explored fresh_stats + n
       \<and> nodes_explored st2' = nodes_explored fresh_stats + k
       \<and> k \<le> n)"
  using alpha_beta_nodes_le_minimax [of board_two_empty 0 True 9 fresh_stats fresh_stats]
    board_3x3_examples(4)
  by blast

section \<open>Top-level move selection: properties\<close>

lemma maximize_score_keeps_move:
  "maximize_score b d ms md (Some m0) bs st = Inr ((mv, v), st') \<Longrightarrow> mv \<noteq> None"
  by (induction ms arbitrary: m0 bs st) (auto split: sum.splits prod.splits if_splits)

lemma minimize_score_keeps_move:
  "minimize_score b d ms md (Some m0) bs st = Inr ((mv, v), st') \<Longrightarrow> mv \<noteq> None"
  by (induction ms arbitrary: m0 bs st) (auto split: sum.splits prod.splits if_splits)

lemma maximize_with_pruning_keeps_move:
  "maximize_with_pruning b d ms alpha beta md (Some m0) bs st = Inr ((mv, v), st') \<Longrightarrow>
   mv \<noteq> None"
  by (induction ms arbitrary: m0 bs alpha st) (auto split: sum.splits prod.splits if_splits)

lemma minimize_with_pruning_keeps_move:
  "minimize_with_pruning b d ms alpha beta md (Some m0) bs st = Inr ((mv, v), st') \<Longrightarrow>
   mv \<noteq> None"
  by (induction ms arbitrary: m0 bs beta st) (auto split: sum.splits prod.splits if_splits)

lemma returns_result:
  "returns f v n \<Longrightarrow> \<exists>mv st'. f st = Inr ((mv, v), st')"
  unfolding returns_def by blast

lemma maximize_score_first_move:
  assumes "maximize_score b d (m # rest) md None NegInf st = Inr ((mv, v), st')"
    and "make_move b m AI_PLAYER = Inr nb"
    and "returns (minimax nb (d + 1) False md) vm nm" and "finite_score vm"
  shows "mv \<noteq> None"
proof -
  obtain mv1 st1 where "minimax nb (d + 1) False md st = Inr ((mv1, vm), st1)"
    using returns_result [OF assms(3)] by blast
  then have "maximize_score b d rest md (Some m) vm st1 = Inr ((mv, v), st')"
    using assms(1,2,4) by (simp add: finite_score_def)
  then show ?thesis
    by (rule maximize_score_keeps_move)
qed

lemma minimize_score_first_move:
  assumes "minimize_score b d (m # rest) md None PosInf st = Inr ((mv, v), st')"
    and "make_move b m HUMAN_PLAYER = Inr nb"
    and "returns (minimax nb (d + 1) True md) vm nm" and "finite_score vm"
  shows "mv \<noteq> None"
proof -
  obtain mv1 st1 where "minimax nb (d + 1) True md st = Inr ((mv1, vm), st1)"
    using returns_result [OF assms(3)] by blast
  then have "minimize_score b d rest md (Some m) vm st1 = Inr ((mv, v), st')"
    using assms(1,2,4) by (simp add: finite_score_def)
  then show ?thesis
    by (rule minimize_score_keeps_move)
qed

lemma maximize_with_pruning_first_move:
  assumes "maximize_with_pruning b d (m # rest) alpha beta md None NegInf st = Inr ((mv, v), st')"
    and "make_move b m AI_PLAYER = Inr nb"
    and "returns (alpha_beta nb (d + 1) alpha beta False md) rm km" and "finite_score rm"
  shows "mv \<noteq> None"
proof -
  obtain mv1 st1 where 1: "alpha_beta nb (d + 1) alpha beta False md st = Inr ((mv1, rm), st1)"
    using returns_result [OF assms(3)] by blast
  show ?thesis
  proof (cases "beta \<le> max alpha rm")
    case True
    then show ?thesis
      using assms(1,2,4) 1 by (auto simp: finite_score_def)
  next
    case False
    then have "maximize_with_pruning b d rest (max alpha rm) beta md (Some m) rm st1
        = Inr ((mv, v), st')"
      using assms(1,2,4) 1 by (simp add: finite_score_def)
    then show ?thesis
      by (rule maximize_with_pruning_keeps_move)
  qed
qed

lemma minimize_with_pruning_first_move:
  assumes "minimize_with_pruning b d (m # rest) alpha beta md None PosInf st = Inr ((mv, v), st')"
    and "make_move b m HUMAN_PLAYER = Inr nb"
    and "returns (alpha_beta nb (d + 1) alpha beta True md) rm km" and "finite_score rm"
  shows "mv \<noteq> None"
proof -
  obtain mv1 st1 where 1: "alpha_beta nb (d + 1) alpha beta True md st = Inr ((mv1, rm), st1)"
    using returns_result [OF assms(3)] by blast
  show ?thesis
  proof (cases "min beta rm \<le> alpha")
    case True
    then show ?thesis
      using assms(1,2,4) 1 by (auto simp: finite_score_def)
  next
    case False
    then have "minimize_with_pruning b d rest alpha (min beta rm) md (Some m) rm st1
        = Inr ((mv, v), st')"
      using assms(1,2,4) 1 by (simp add: finite_score_def)
    then show ?thesis
      by (rule minimize_with_pruning_keeps_move)
  qed
qed

text \<open>
  At a position where the search does not stop, on a 3x3 board, both searches return a
  move: the first child already beats the starting score of the loop.
\<close>

lemma search_node_move:
  assumes "board_3x3 b" and "should_stop_search b d md = Inr False" and "alpha < beta"
  shows "(\<exists>m v st'. minimax b d ai md st = Inr ((Some m, v), st'))
       \<and> (\<exists>m v st'. alpha_beta b d alpha beta ai md st = Inr ((Some m, v), st'))"
proof -
  obtain s where s: "should_stop_search b d md = Inr s" "\<not> s \<longrightarrow> empty_cells b \<noteq> []"
    using should_stop_search_3x3 [OF assms(1)] by blast
  let ?ms = "map (\<lambda>(r, c). Move r c) (empty_cells b)"
  have ms: "get_available_moves b = Inr ?ms" "?ms \<noteq> []"
    using get_available_moves_3x3 [OF assms(1)] s assms(2) by simp_all
  then obtain m rest where mr: "?ms = m # rest"
    by (cases ?ms) auto
  then have "m \<in> set ?ms"
    by simp
  then have range: "row m < 3 \<and> col m < 3"
    using available_moves_range [OF assms(1) ms(1)] by blast
  obtain v n r k where a: "returns (minimax b d ai md) v n"
      "returns (alpha_beta b d alpha beta ai md) r k"
    using searches_agree_3x3 [OF assms(1), of d ai md] assms(3) unfolding searches_agree_def
    by blast
  obtain mv1 st1 where 1: "minimax b d ai md st = Inr ((mv1, v), st1)"
    using returns_result [OF a(1)] by blast
  obtain mv2 st2 where 2: "alpha_beta b d alpha beta ai md st = Inr ((mv2, r), st2)"
    using returns_result [OF a(2)] by blast
  have child: "\<exists>nb vm nm rm km. make_move b m p = Inr nb
      \<and> returns (minimax nb (d + 1) ai' md) vm nm \<and> finite_score vm
      \<and> returns (alpha_beta nb (d + 1) alpha beta ai' md) rm km \<and> finite_score rm" for p ai'
  proof -
    obtain nb where nb: "make_move b m p = Inr nb" "board_3x3 nb"
      using make_move_3x3 [OF assms(1)] range by blast
    show ?thesis
      using searches_agree_3x3 [OF nb(2), of "d + 1" ai' md] assms(3) nb(1)
      unfolding searches_agree_def by blast
  qed
  have "mv1 \<noteq> None \<and> mv2 \<noteq> None"
  proof (cases ai)
    case True
    obtain nb vm nm rm km where c: "make_move b m AI_PLAYER = Inr nb"
        "returns (minimax nb (d + 1) False md) vm nm" "finite_score vm"
        "returns (alpha_beta nb (d + 1) alpha beta False md) rm km" "finite_score rm"
      using child by blast
    have "maximize_score b d (m # rest) md None NegInf (visit st d) = Inr ((mv1, v), st1)"
      using 1 True by (simp add: minimax_node [OF assms(2) ms(1)] mr)
    moreover have "maximize_with_pruning b d (m # rest) alpha beta md None NegInf (visit st d)
        = Inr ((mv2, r), st2)"
      using 2 True by (simp add: alpha_beta_node [OF assms(2) ms(1)] mr)
    ultimately show ?thesis
      using maximize_score_first_move [OF _ c(1,2,3)]
        maximize_with_pruning_first_move [OF _ c(1,4,5)] by blast
  next
    case False
    obtain nb vm nm rm km where c: "make_move b m HUMAN_PLAYER = Inr nb"
        "returns (minimax nb (d + 1) True md) vm nm" "finite_score vm"
        "returns (alpha_beta nb (d + 1) alpha beta True md) rm km" "finite_score rm"
      using child by blast
    have "minimize_score b d (m # rest) md None PosInf (visit st d) = Inr ((mv1, v), st1)"
      using 1 False by (simp add: minimax_node [OF assms(2) ms(1)] mr)
    moreover have "minimize_with_pruning b d (m # rest) alpha beta md None PosInf (visit st d)
        = Inr ((mv2, r), st2)"
      using 2 False by (simp add: alpha_beta_node [OF assms(2) ms(1)] mr)
    ultimately show ?thesis
      using minimize_score_first_move [OF _ c(1,2,3)]
        minimize_with_pruning_first_move [OF _ c(1,4,5)] by blast
  qed
  then show ?thesis
    using 1 2 by auto
qed

lemma run_algorithm_3x3:
  assumes "board_3x3 b"
  shows "\<exists>bm s reasoning st'. run_algorithm b algorithm sd st = Inr ((bm, s, reasoning), st')"
proof -
  have ab: "\<exists>bm s st'. alpha_beta b 0 NegInf PosInf True sd st = Inr ((bm, s), st')"
    using searches_agree_3x3 [OF assms, of 0 True sd] returns_result
    unfolding searches_agree_def by (metis finite_score_def order_less_trans)
  have mm: "\<exists>bm s st'. minimax b 0 True sd st = Inr ((bm, s), st')"
    using searches_agree_3x3 [OF assms, of 0 True sd] returns_result
    unfolding searches_agree_def by metis
  show ?thesis
    using ab mm by (auto simp: run_algorithm_def depth_limited_minimax_def)
qed

lemma run_algorithm_move:
  assumes "board_3x3 b" and "should_stop_search b 0 sd = Inr False"
  shows "\<exists>m s reasoning st'. run_algorithm b algorithm sd st = Inr ((Some m, s, reasoning), st')"
proof -
  have "NegInf < PosInf"
    by (simp add: less_score_def)
  then show ?thesis
    using search_node_move [OF assms, of NegInf PosInf True st]
    by (auto simp: run_algorithm_def depth_limited_minimax_def)
qed

lemma search_starts:
  assumes "board_3x3 b" and "valid_cells b"
    and "\<not> occupies_line b ''X''" and "\<not> occupies_line b ''O''"
    and "empty_cells b \<noteq> []" and "1 \<le> sd"
  shows "should_stop_search b 0 sd = Inr False"
proof -
  have n: "check_winner b = Inr None"
    using check_winner_cases [OF assms(1,2)] assms(3,4) by simp
  then have "is_draw b = Inr False"
    using is_draw_None [OF n] board_full_iff [OF assms(1)] assms(5) by simp
  then show ?thesis
    using n assms(6) by (simp add: should_stop_search_def is_game_over_def)
qed

text \<open>
  C5, as stated, fails: on a board that already holds a complete line and still has four
  empty cells, \<open>get_best_move\<close> dispatches the search, the search stops at the root and
  returns no move, and the fallback to the first available move with score 0 is what
  \<open>get_best_move\<close> returns.
\<close>

theorem run_algorithm_no_move_counterexample:
  "board_3x3 board_x_won \<and> valid_cells board_x_won \<and> length (empty_cells board_x_won) = 4
   \<and> run_algorithm board_x_won ''minimax'' (get_search_depth ''medium'' None) fresh_stats
       = Inr ((None, Num (- 100), ''Classic minimax algorithm''),
              \<lparr>nodes_explored = 1, pruned_branches = 0, max_depth_reached = 0\<rparr>)
   \<and> get_best_move fresh_stats board_x_won ''minimax'' ''medium'' None low_draw
       = Inr ((Move 1 2,
               \<lparr>nodes_explored = 1, pruned_branches = 0, max_depth_reached = 0,
                  move_reasoning = ''Fallback to first available move'',
                  evaluation_score = Num 0\<rparr>),
              \<lparr>nodes_explored = 1, pruned_branches = 0, max_depth_reached = 0\<rparr>)"
  by code_simp

lemma apply_difficulty_adjustments_total:
  "ms \<noteq> [] \<Longrightarrow> \<exists>fm. apply_difficulty_adjustments bm ms difficulty reasoning rng = Inr fm"
  by (simp add: apply_difficulty_adjustments_def random_choice_def)

lemma get_best_move_full:
  assumes "board_3x3 b" and "empty_cells b = []"
  shows "get_best_move st b algorithm difficulty max_depth rng
           = Inl (ValueError ''No available moves on the board'')"
  using get_available_moves_3x3 [OF assms(1)] assms(2)
  by (simp add: get_best_move_def Let_def)

lemma get_best_move_returns:
  assumes "board_3x3 b" and "empty_cells b \<noteq> []"
  shows "\<exists>mv an st'. get_best_move st b algorithm difficulty max_depth rng = Inr ((mv, an), st')"
proof -
  let ?ms = "map (\<lambda>(r, c). Move r c) (empty_cells b)"
  have ms: "get_available_moves b = Inr ?ms" "?ms \<noteq> []"
    using get_available_moves_3x3 [OF assms(1)] assms(2) by simp_all
  show ?thesis
  proof (cases "length ?ms = 1")
    case True
    then show ?thesis
      using ms by (simp add: get_best_move_def Let_def)
  next
    case False
    obtain bm s reasoning st1 where r: "run_algorithm b algorithm
        (get_search_depth difficulty max_depth) (reset_stats st) = Inr ((bm, s, reasoning), st1)"
      using run_algorithm_3x3 [OF assms(1)] by blast
    show ?thesis
    proof (cases bm)
      case None
      obtain fm where "apply_difficulty_adjustments (?ms ! 0) ?ms difficulty
          ''Fallback to first available move'' rng = Inr fm"
        using apply_difficulty_adjustments_total [OF ms(2)] by blast
      then show ?thesis
        using ms False r None by (simp add: get_best_move_def Let_def)
    next
      case (Some m)
      obtain fm where "apply_difficulty_adjustments m ?ms difficulty reasoning rng = Inr fm"
        using apply_difficulty_adjustments_total [OF ms(2)] by blast
      then show ?thesis
        using ms False r Some by (simp add: get_best_move_def Let_def)
    qed
  qed
qed

text \<open>
  C3. On every 3x3 board, \<open>get_best_move\<close> fails with the "no moves available" error
  exactly when the board has no empty cell; it raises no other error; and on a board
  with at least one empty cell it returns a move and an analysis.
\<close>

theorem get_best_move_fails_iff_full:
  assumes "board_3x3 b"
  shows "(get_best_move st b algorithm difficulty max_depth rng
            = Inl (ValueError ''No available moves on the board'') \<longleftrightarrow> empty_cells b = [])
       \<and> (\<forall>e. get_best_move st b algorithm difficulty max_depth rng = Inl e \<longrightarrow>
              e = ValueError ''No available moves on the board'')
       \<and> (empty_cells b \<noteq> [] \<longrightarrow>
            (\<exists>mv an st'. get_best_move st b algorithm difficulty max_depth rng
               = Inr ((mv, an), st')))"
proof (cases "empty_cells b = []")
  case True
  then show ?thesis
    using get_best_move_full [OF assms True] by simp
next
  case False
  then show ?thesis
    using get_best_move_returns [OF assms False, of st algorithm difficulty max_depth rng]
    by auto
qed

theorem get_best_move_fails_iff_full_witness:
  "(board_3x3 board_drawn \<and> empty_cells board_drawn = []
      \<and> get_best_move fresh_stats board_drawn ''minimax'' ''medium'' None low_draw
          = Inl (ValueError ''No available moves on the board''))
   \<and> (board_3x3 board_two_empty \<and> empty_cells board_two_empty \<noteq> []
      \<and> (\<exists>mv an st'. get_best_move fresh_stats board_two_empty ''minimax'' ''medium'' None low_draw
            = Inr ((mv, an), st')))"
proof -
  have h1: "board_3x3 board_drawn" "empty_cells board_drawn = []"
    by code_simp+
  have h2: "board_3x3 board_two_empty" "empty_cells board_two_empty \<noteq> []"
    by code_simp+
  show ?thesis
    using get_best_move_fails_iff_full [OF h1(1), of fresh_stats "''minimax''" "''medium''" None low_draw]
      get_best_move_fails_iff_full [OF h2(1), of fresh_stats "''minimax''" "''medium''" None low_draw]
      h1 h2
    by blast
qed

text \<open>
  C4. On every 3x3 board with exactly one empty cell \<open>(r, c)\<close>, \<open>get_best_move\<close> returns
  that cell as the move, with evaluation score 0, the rationale "Only one move
  available" and zero nodes explored; the statistics it leaves are those of the reset,
  so no search has run.
\<close>

theorem get_best_move_single_move:
  assumes "board_3x3 b" and "empty_cells b = [(r, c)]"
  shows "get_best_move st b algorithm difficulty max_depth rng
           = Inr ((Move r c,
                   \<lparr>nodes_explored = 0, pruned_branches = 0, max_depth_reached = 0,
                      move_reasoning = ''Only one move available'',
                      evaluation_score = Num 0\<rparr>),
                  \<lparr>nodes_explored = 0, pruned_branches = 0, max_depth_reached = 0\<rparr>)"
  using get_available_moves_3x3 [OF assms(1)] assms(2)
  by (simp add: get_best_move_def Let_def reset_stats_def create_analysis_def)

theorem get_best_move_single_move_witness:
  "board_3x3 board_single_empty \<and> empty_cells board_single_empty = [(2, 2)]
   \<and> get_best_move fresh_stats board_single_empty ''minimax'' ''medium'' None low_draw
       = Inr ((Move 2 2,
               \<lparr>nodes_explored = 0, pruned_branches = 0, max_depth_reached = 0,
                  move_reasoning = ''Only one move available'',
                  evaluation_score = Num 0\<rparr>),
              \<lparr>nodes_explored = 0, pruned_branches = 0, max_depth_reached = 0\<rparr>)"
proof -
  have h: "board_3x3 board_single_empty" "empty_cells board_single_empty = [(2, 2)]"
    by code_simp+
  show ?thesis
    using get_best_move_single_move [OF h, of fresh_stats "''minimax''" "''medium''" None low_draw] h
    by simp
qed

text \<open>
  C6, the code at the failing input. Difficulty "easy", two moves available, a draw of 0
  (below the threshold) and the random choice of the second move: the returned move is
  the randomly chosen (2, 2) and not the computed (2, 1), but the rationale in the
  returned analysis is still the algorithm's, not the note about the random move.
\<close>

theorem easy_random_move_keeps_rationale:
  "random_value low_draw < float_0_3
   \<and> run_algorithm board_two_empty ''minimax'' (get_search_depth ''easy'' None)
        (reset_stats fresh_stats)
       = Inr ((Some (Move 2 1), Num 99, ''Classic minimax algorithm''),
              \<lparr>nodes_explored = 4, pruned_branches = 0, max_depth_reached = 2\<rparr>)
   \<and> get_best_move fresh_stats board_two_empty ''minimax'' ''easy'' None low_draw
       = Inr ((Move 2 2,
               \<lparr>nodes_explored = 4, pruned_branches = 0, max_depth_reached = 2,
                  move_reasoning = ''Classic minimax algorithm'',
                  evaluation_score = Num 99\<rparr>),
              \<lparr>nodes_explored = 4, pruned_branches = 0, max_depth_reached = 2\<rparr>)"
  by code_simp

section \<open>\<open>make_move\<close>: properties\<close>

lemma copy_rows_result:
  "list_all (\<lambda>a. a < length (row_objects s)) refs \<Longrightarrow> copy_rows s refs = (s', copies) \<Longrightarrow>
   row_objects s' = row_objects s @ map (\<lambda>a. row_objects s ! a) refs
   \<and> board_objects s' = board_objects s
   \<and> length copies = length refs
   \<and> (\<forall>i < length refs. copies ! i = length (row_objects s) + i)"
proof (induction refs arbitrary: s s' copies)
  case Nil
  then show ?case by simp
next
  case (Cons a rest)
  let ?s1 = "s\<lparr>row_objects := row_objects s @ [row_objects s ! a]\<rparr>"
  obtain s2 cs where c: "copy_rows ?s1 rest = (s2, cs)"
    by (cases "copy_rows ?s1 rest") auto
  then have r: "s' = s2" "copies = length (row_objects s) # cs"
    using Cons.prems(2) by (simp_all add: Let_def)
  have "list_all (\<lambda>a. a < length (row_objects ?s1)) rest"
    using Cons.prems(1) by (auto simp: list_all_iff)
  from Cons.IH [OF this c]
  have ih: "row_objects s2 = row_objects ?s1 @ map (\<lambda>a. row_objects ?s1 ! a) rest"
      "board_objects s2 = board_objects ?s1" "length cs = length rest"
      "\<forall>i < length rest. cs ! i = length (row_objects ?s1) + i"
    by simp_all
  have "map (\<lambda>a. row_objects ?s1 ! a) rest = map (\<lambda>a. row_objects s ! a) rest"
    using Cons.prems(1) by (auto simp: list_all_iff nth_append)
  then have "row_objects s' = row_objects s @ map (\<lambda>a. row_objects s ! a) (a # rest)"
    using ih(1) r(1) by simp
  moreover have "board_objects s' = board_objects s"
    using ih(2) r(1) by simp
  moreover have "length copies = length (a # rest)"
    using ih(3) r(2) by simp
  moreover have "copies ! i = length (row_objects s) + i" if "i < length (a # rest)" for i
    using that ih(4) r(2) by (cases i) simp_all
  ultimately show ?case
    by blast
qed

lemma make_move_store_result:
  assumes "valid_board_ref s board"
    and "row m < length (board_value s board)"
    and "col m < length (board_value s board ! row m)"
  shows "\<exists>s'. make_move_store s board m player = Inr (s', length (board_objects s))
           \<and> board_value s' (length (board_objects s))
               = (board_value s board)[row m := (board_value s board ! row m)[col m := player]]
           \<and> (\<forall>a < length (row_objects s). row_objects s' ! a = row_objects s ! a)
           \<and> (\<forall>a < length (board_objects s). board_objects s' ! a = board_objects s ! a)"
proof -
  let ?refs = "board_objects s ! board"
  let ?b = "board_value s board"
  let ?n = "length (row_objects s)"
  let ?nb = "length (board_objects s)"
  let ?b' = "?b[row m := (?b ! row m)[col m := player]]"
  have refs: "list_all (\<lambda>a. a < ?n) ?refs"
    using assms(1) by (simp add: valid_board_ref_def)
  have len: "length ?b = length ?refs"
    by (simp add: board_value_def)
  obtain s1 copies where c: "copy_rows s ?refs = (s1, copies)"
    by (cases "copy_rows s ?refs") auto
  from copy_rows_result [OF refs c]
  have s1: "row_objects s1 = row_objects s @ ?b" "board_objects s1 = board_objects s"
      "length copies = length ?refs" "\<forall>i < length ?refs. copies ! i = ?n + i"
    by (simp_all add: board_value_def)
  let ?s2 = "s1\<lparr>board_objects := board_objects s1 @ [copies]\<rparr>"
  let ?a = "?n + row m"
  let ?s' = "?s2\<lparr>row_objects := (row_objects ?s2)[?a := (row_objects ?s2 ! ?a)[col m := player]]\<rparr>"
  have a: "copies ! row m = ?a" "row m < length copies"
    using s1(3,4) assms(2) len by simp_all
  have old: "row_objects ?s2 ! ?a = ?b ! row m"
    using s1(1) by (simp add: nth_append)
  have res: "make_move_store s board m player = Inr (?s', ?nb)"
    using c s1(2) a old assms(3) by (simp add: make_move_store_def Let_def)
  have rows': "row_objects ?s' = row_objects s @ ?b'"
    using s1(1) old by (simp add: list_update_append)
  have boards': "board_objects ?s' = board_objects s @ [copies]"
    using s1(2) by simp
  have "board_value ?s' ?nb = ?b'"
  proof (rule nth_equalityI)
    show "length (board_value ?s' ?nb) = length ?b'"
      using s1(3) len by (simp add: board_value_def s1(2))
  next
    fix i
    assume "i < length (board_value ?s' ?nb)"
    then have i: "i < length ?refs"
      using s1(3) by (simp add: board_value_def s1(2))
    then have "board_value ?s' ?nb ! i = row_objects ?s' ! (?n + i)"
      using s1(3,4) by (simp add: board_value_def s1(2))
    also have "\<dots> = ?b' ! i"
      using rows' by (simp add: nth_append)
    finally show "board_value ?s' ?nb ! i = ?b' ! i" .
  qed
  moreover have "\<forall>a < ?n. row_objects ?s' ! a = row_objects s ! a"
    using rows' by (simp add: nth_append)
  moreover have "\<forall>a < ?nb. board_objects ?s' ! a = board_objects s ! a"
    using boards' by (simp add: nth_append)
  ultimately show ?thesis
    using res by blast
qed

lemma board_value_unchanged:
  assumes "valid_board_ref s board"
    and "\<forall>a < length (row_objects s). row_objects s' ! a = row_objects s ! a"
    and "\<forall>a < length (board_objects s). board_objects s' ! a = board_objects s ! a"
  shows "board_value s' board = board_value s board"
  using assms by (auto simp: board_value_def valid_board_ref_def list_all_iff)

text \<open>
  C8. For every 3x3 board held in the store, every move within the board and every
  mark, \<open>make_move\<close> returns a reference to a new board whose value is what the
  value-level \<open>make_move\<close> (the one the search uses) computes: it holds the mark at the
  targeted cell and equals the input board at every other cell. Every object that
  existed before the call is unchanged, so the input board reads the same after the
  call as before it.
\<close>

theorem make_move_returns_updated_copy:
  assumes "valid_board_ref s board" and "board_3x3 (board_value s board)"
    and "row m < 3" and "col m < 3"
  shows "\<exists>s' new_board.
           make_move_store s board m player = Inr (s', new_board)
         \<and> make_move (board_value s board) m player = Inr (board_value s' new_board)
         \<and> board_3x3 (board_value s' new_board)
         \<and> board_value s' new_board ! row m ! col m = player
         \<and> (\<forall>r c. r < 3 \<and> c < 3 \<and> (r, c) \<noteq> (row m, col m) \<longrightarrow>
                board_value s' new_board ! r ! c = board_value s board ! r ! c)
         \<and> board_value s' board = board_value s board
         \<and> (\<forall>a < length (row_objects s). row_objects s' ! a = row_objects s ! a)
         \<and> (\<forall>a < length (board_objects s). board_objects s' ! a = board_objects s ! a)"
proof -
  let ?b = "board_value s board"
  let ?b' = "?b[row m := (?b ! row m)[col m := player]]"
  have l: "length ?b = 3" "length (?b ! row m) = 3"
    using assms(2,3) board_3x3_row [OF assms(2,3)] by (simp_all add: board_3x3_def)
  obtain s' where s': "make_move_store s board m player = Inr (s', length (board_objects s))"
      "board_value s' (length (board_objects s)) = ?b'"
      "\<forall>a < length (row_objects s). row_objects s' ! a = row_objects s ! a"
      "\<forall>a < length (board_objects s). board_objects s' ! a = board_objects s ! a"
    using make_move_store_result [OF assms(1), of m player] l assms(3,4) by auto
  have v: "make_move ?b m player = Inr ?b'"
    using l assms(3,4) by (simp add: make_move_def Let_def)
  have "board_3x3 ?b'"
    using make_move_3x3 [OF assms(2,3,4), of player] v by simp
  moreover have "?b' ! row m ! col m = player"
    using l assms(3,4) by simp
  moreover have "?b' ! r ! c = ?b ! r ! c" if "r < 3" "c < 3" "(r, c) \<noteq> (row m, col m)" for r c
    using that l by (cases "r = row m") simp_all
  moreover have "board_value s' board = ?b"
    using board_value_unchanged [OF assms(1) s'(3,4)] .
  ultimately show ?thesis
    using s' v by (intro exI [of _ s'] exI [of _ "length (board_objects s)"]) simp
qed

theorem make_move_returns_updated_copy_witness:
  "valid_board_ref store_single_empty 0 \<and> board_3x3 (board_value store_single_empty 0)
   \<and> row (Move 2 2) < 3 \<and> col (Move 2 2) < 3
   \<and> (\<exists>s' new_board.
         make_move_store store_single_empty 0 (Move 2 2) ''O'' = Inr (s', new_board)
       \<and> make_move (board_value store_single_empty 0) (Move 2 2) ''O''
           = Inr (board_value s' new_board)
       \<and> board_3x3 (board_value s' new_board)
       \<and> board_value s' new_board ! row (Move 2 2) ! col (Move 2 2) = ''O''
       \<and> (\<forall>r c. r < 3 \<and> c < 3 \<and> (r, c) \<noteq> (row (Move 2 2), col (Move 2 2)) \<longrightarrow>
              board_value s' new_board ! r ! c = board_value store_single_empty 0 ! r ! c)
       \<and> board_value s' 0 = board_value store_single_empty 0
       \<and> (\<forall>a < length (row_objects store_single_empty).
              row_objects s' ! a = row_objects store_single_empty ! a)
       \<and> (\<forall>a < length (board_objects store_single_empty).
              board_objects s' ! a = board_objects store_single_empty ! a))"
proof -
  have h: "valid_board_ref store_single_empty 0" "board_3x3 (board_value store_single_empty 0)"
      "row (Move 2 2) < 3" "col (Move 2 2) < 3"
    by code_simp+
  show ?thesis
    using make_move_returns_updated_copy [OF h, of "''O''"] h by blast
qed

section \<open>The moves the two searches return\<close>

lemma maximize_score_move:
  assumes "\<forall>m \<in> set ms. \<exists>nb vm nm. make_move b m AI_PLAYER = Inr nb \<and> finite_score vm
             \<and> returns (minimax nb (d + 1) False md) vm nm"
    and "NegInf < bs \<longrightarrow> (\<exists>m'. bm = Some m' \<and> move_value b d True md m' bs)"
    and "maximize_score b d ms md bm bs st = Inr ((mv, v), st')"
  shows "NegInf < v \<longrightarrow> (\<exists>m'. mv = Some m' \<and> move_value b d True md m' v)"
  using assms
proof (induction ms arbitrary: bm bs st)
  case Nil
  then show ?case by simp
next
  case (Cons m rest)
  obtain nb vm nm where c: "make_move b m AI_PLAYER = Inr nb" "finite_score vm"
      "returns (minimax nb (d + 1) False md) vm nm"
    using Cons.prems(1) by auto
  obtain mv1 st1 where 1: "minimax nb (d + 1) False md st = Inr ((mv1, vm), st1)"
    using returns_result [OF c(3)] by blast
  let ?bm1 = "if bs < vm then Some m else bm"
  let ?bs1 = "if bs < vm then vm else bs"
  have res: "maximize_score b d rest md ?bm1 ?bs1 st1 = Inr ((mv, v), st')"
    using Cons.prems(3) c(1) 1 by (simp split: if_splits)
  have mv: "move_value b d True md m vm"
    using c(1,3) unfolding move_value_def by auto
  have inv: "NegInf < ?bs1 \<longrightarrow> (\<exists>m'. ?bm1 = Some m' \<and> move_value b d True md m' ?bs1)"
    using Cons.prems(2) mv by simp
  show ?case
    using Cons.IH [OF _ inv res] Cons.prems(1) by simp
qed

lemma minimize_score_move:
  assumes "\<forall>m \<in> set ms. \<exists>nb vm nm. make_move b m HUMAN_PLAYER = Inr nb \<and> finite_score vm
             \<and> returns (minimax nb (d + 1) True md) vm nm"
    and "bs < PosInf \<longrightarrow> (\<exists>m'. bm = Some m' \<and> move_value b d False md m' bs)"
    and "minimize_score b d ms md bm bs st = Inr ((mv, v), st')"
  shows "v < PosInf \<longrightarrow> (\<exists>m'. mv = Some m' \<and> move_value b d False md m' v)"
  using assms
proof (induction ms arbitrary: bm bs st)
  case Nil
  then show ?case by simp
next
  case (Cons m rest)
  obtain nb vm nm where c: "make_move b m HUMAN_PLAYER = Inr nb" "finite_score vm"
      "returns (minimax nb (d + 1) True md) vm nm"
    using Cons.prems(1) by auto
  obtain mv1 st1 where 1: "minimax nb (d + 1) True md st = Inr ((mv1, vm), st1)"
    using returns_result [OF c(3)] by blast
  let ?bm1 = "if vm < bs then Some m else bm"
  let ?bs1 = "if vm < bs then vm else bs"
  have res: "minimize_score b d rest md ?bm1 ?bs1 st1 = Inr ((mv, v), st')"
    using Cons.prems(3) c(1) 1 by (simp split: if_splits)
  have mv: "move_value b d False md m vm"
    using c(1,3) unfolding move_value_def by auto
  have inv: "?bs1 < PosInf \<longrightarrow> (\<exists>m'. ?bm1 = Some m' \<and> move_value b d False md m' ?bs1)"
    using Cons.prems(2) mv by simp
  show ?case
    using Cons.IH [OF _ inv res] Cons.prems(1) by simp
qed

lemma max_window_step:
  "alpha = max alpha0 bs' \<Longrightarrow> max alpha rm = max alpha0 (if bs' < rm then rm else bs')"
  for alpha :: score
  by (auto simp: max_def)

lemma min_window_step:
  "beta = min beta0 bs' \<Longrightarrow> min beta rm = min beta0 (if rm < bs' then rm else bs')"
  for beta :: score
  by (auto simp: min_def)

lemma maximize_with_pruning_move:
  assumes "\<forall>m \<in> set ms. \<exists>nb. make_move b m AI_PLAYER = Inr nb
             \<and> searches_agree nb (d + 1) False md"
    and "alpha = max alpha0 bs'" and "alpha < beta"
    and "alpha0 < bs' \<longrightarrow> (\<exists>m'. bm = Some m' \<and> move_value b d True md m' bs')"
    and "maximize_with_pruning b d ms alpha beta md bm bs' st = Inr ((mv, r), st')"
  shows "alpha0 < r \<and> r < beta \<longrightarrow> (\<exists>m'. mv = Some m' \<and> move_value b d True md m' r)"
  using assms
proof (induction ms arbitrary: bm bs' alpha st)
  case Nil
  then show ?case by simp
next
  case (Cons m rest)
  obtain nb where nb: "make_move b m AI_PLAYER = Inr nb" "searches_agree nb (d + 1) False md"
    using Cons.prems(1) by auto
  obtain vm nm rm km where c: "returns (minimax nb (d + 1) False md) vm nm"
      "returns (alpha_beta nb (d + 1) alpha beta False md) rm km"
      "window_bound alpha beta vm rm"
    using nb(2) Cons.prems(3) unfolding searches_agree_def by blast
  obtain mv1 st1 where 1: "alpha_beta nb (d + 1) alpha beta False md st = Inr ((mv1, rm), st1)"
    using returns_result [OF c(2)] by blast
  let ?bm1 = "if bs' < rm then Some m else bm"
  let ?bs1 = "if bs' < rm then rm else bs'"
  show ?case
  proof (cases "beta \<le> max alpha rm")
    case True
    then have "r = ?bs1"
      using Cons.prems(5) nb(1) 1 by simp
    moreover have "beta \<le> ?bs1"
      using True Cons.prems(2,3) by (auto simp: max_def split: if_splits)
    ultimately have "beta \<le> r"
      by simp
    then show ?thesis
      by (simp add: not_less [symmetric])
  next
    case False
    then have res: "maximize_with_pruning b d rest (max alpha rm) beta md ?bm1 ?bs1 st1
        = Inr ((mv, r), st')"
      using Cons.prems(5) nb(1) 1 by simp
    have w: "max alpha rm = max alpha0 ?bs1"
      using Cons.prems(2) by (rule max_window_step)
    have lt: "max alpha rm < beta"
      using False by (simp add: not_le)
    have "rm = vm" if "bs' < rm" "alpha0 < rm"
    proof -
      have "alpha < rm"
        using that Cons.prems(2) by (simp add: max_def)
      moreover have "rm < beta"
        using lt by simp
      ultimately show ?thesis
        using c(3) by (simp add: window_bound_def)
    qed
    moreover have "move_value b d True md m vm"
      using nb(1) c(1) unfolding move_value_def by auto
    ultimately have inv:
        "alpha0 < ?bs1 \<longrightarrow> (\<exists>m'. ?bm1 = Some m' \<and> move_value b d True md m' ?bs1)"
      using Cons.prems(4) by auto
    show ?thesis
      using Cons.IH [OF _ w lt inv res] Cons.prems(1) by simp
  qed
qed

lemma minimize_with_pruning_move:
  assumes "\<forall>m \<in> set ms. \<exists>nb. make_move b m HUMAN_PLAYER = Inr nb
             \<and> searches_agree nb (d + 1) True md"
    and "beta = min beta0 bs'" and "alpha < beta"
    and "bs' < beta0 \<longrightarrow> (\<exists>m'. bm = Some m' \<and> move_value b d False md m' bs')"
    and "minimize_with_pruning b d ms alpha beta md bm bs' st = Inr ((mv, r), st')"
  shows "alpha < r \<and> r < beta0 \<longrightarrow> (\<exists>m'. mv = Some m' \<and> move_value b d False md m' r)"
  using assms
proof (induction ms arbitrary: bm bs' beta st)
  case Nil
  then show ?case by simp
next
  case (Cons m rest)
  obtain nb where nb: "make_move b m HUMAN_PLAYER = Inr nb" "searches_agree nb (d + 1) True md"
    using Cons.prems(1) by auto
  obtain vm nm rm km where c: "returns (minimax nb (d + 1) True md) vm nm"
      "returns (alpha_beta nb (d + 1) alpha beta True md) rm km"
      "window_bound alpha beta vm rm"
    using nb(2) Cons.prems(3) unfolding searches_agree_def by blast
  obtain mv1 st1 where 1: "alpha_beta nb (d + 1) alpha beta True md st = Inr ((mv1, rm), st1)"
    using returns_result [OF c(2)] by blast
  let ?bm1 = "if rm < bs' then Some m else bm"
  let ?bs1 = "if rm < bs' then rm else bs'"
  show ?case
  proof (cases "min beta rm \<le> alpha")
    case True
    then have "r = ?bs1"
      using Cons.prems(5) nb(1) 1 by simp
    moreover have "?bs1 \<le> alpha"
      using True Cons.prems(2,3) by (auto simp: min_def split: if_splits)
    ultimately have "r \<le> alpha"
      by simp
    then show ?thesis
      by (simp add: not_less [symmetric])
  next
    case False
    then have res: "minimize_with_pruning b d rest alpha (min beta rm) md ?bm1 ?bs1 st1
        = Inr ((mv, r), st')"
      using Cons.prems(5) nb(1) 1 by simp
    have w: "min beta rm = min beta0 ?bs1"
      using Cons.prems(2) by (rule min_window_step)
    have lt: "alpha < min beta rm"
      using False by (simp add: not_le)
    have "rm = vm" if "rm < bs'" "rm < beta0"
    proof -
      have "rm < beta"
        using that Cons.prems(2) by (simp add: min_def)
      moreover have "alpha < rm"
        using lt by simp
      ultimately show ?thesis
        using c(3) by (simp add: window_bound_def)
    qed
    moreover have "move_value b d False md m vm"
      using nb(1) c(1) unfolding move_value_def by auto
    ultimately have inv:
        "?bs1 < beta0 \<longrightarrow> (\<exists>m'. ?bm1 = Some m' \<and> move_value b d False md m' ?bs1)"
      using Cons.prems(4) by auto
    show ?thesis
      using Cons.IH [OF _ w lt inv res] Cons.prems(1) by simp
  qed
qed

lemma search_moves_3x3:
  assumes "board_3x3 b"
    and "minimax b d ai md st1 = Inr ((mv, v), st1')"
    and "alpha_beta b d NegInf PosInf ai md st2 = Inr ((mv', r), st2')"
  shows "(mv = None \<and> mv' = None)
       \<or> (\<exists>m m'. mv = Some m \<and> mv' = Some m'
             \<and> move_value b d ai md m v \<and> move_value b d ai md m' r)"
proof -
  have window: "NegInf < PosInf"
    by (simp add: less_score_def)
  obtain s where s: "should_stop_search b d md = Inr s"
    using should_stop_search_3x3 [OF assms(1)] by blast
  show ?thesis
  proof (cases s)
    case True
    obtain e where e: "evaluate_position b d = Inr e"
      using evaluate_position_3x3 [OF assms(1)] by blast
    have t: "should_stop_search b d md = Inr True"
      using s True by simp
    show ?thesis
      using minimax_stop [OF t e, of ai st1] alpha_beta_stop [OF t e, of NegInf PosInf ai st2]
        assms(2,3) by simp
  next
    case False
    then have stop: "should_stop_search b d md = Inr False"
      using s by simp
    let ?ms = "map (\<lambda>(r, c). Move r c) (empty_cells b)"
    have ms: "get_available_moves b = Inr ?ms"
      using get_available_moves_3x3 [OF assms(1)] .
    obtain v0 n0 r0 k0 where a: "finite_score v0" "returns (minimax b d ai md) v0 n0"
        "returns (alpha_beta b d NegInf PosInf ai md) r0 k0" "finite_score r0"
      using searches_agree_3x3 [OF assms(1), of d ai md] window unfolding searches_agree_def
      by blast
    have "v = v0"
      using returns_result [OF a(2), of st1] assms(2) by simp
    moreover have "r = r0"
      using returns_result [OF a(3), of st2] assms(3) by simp
    ultimately have fin: "finite_score v" "finite_score r"
      using a(1,4) by simp_all
    have child: "\<exists>nb. make_move b m p = Inr nb \<and> searches_agree nb (d + 1) ai' md"
      if "m \<in> set ?ms" for m p ai'
    proof -
      have "row m < 3 \<and> col m < 3"
        using available_moves_range [OF assms(1) ms that] .
      then obtain nb where nb: "make_move b m p = Inr nb" "board_3x3 nb"
        using make_move_3x3 [OF assms(1)] by blast
      show ?thesis
        using nb(1) searches_agree_3x3 [OF nb(2), of "d + 1" ai' md] by blast
    qed
    have child_mm: "\<exists>nb vm nm. make_move b m p = Inr nb \<and> finite_score vm
        \<and> returns (minimax nb (d + 1) ai' md) vm nm" if mem: "m \<in> set ?ms" for m p ai'
    proof -
      obtain nb where nb: "make_move b m p = Inr nb" "searches_agree nb (d + 1) ai' md"
        using child [OF mem, of p ai'] by blast
      show ?thesis
        using nb(1) searches_agree_minimax [OF nb(2)] by blast
    qed
    show ?thesis
    proof (cases ai)
      case True
      have c1: "\<forall>m \<in> set ?ms. \<exists>nb vm nm. make_move b m AI_PLAYER = Inr nb \<and> finite_score vm
          \<and> returns (minimax nb (d + 1) False md) vm nm"
        by (intro ballI child_mm)
      have c2: "\<forall>m \<in> set ?ms. \<exists>nb. make_move b m AI_PLAYER = Inr nb
          \<and> searches_agree nb (d + 1) False md"
        by (intro ballI child)
      have i1: "NegInf < NegInf \<longrightarrow> (\<exists>m'. None = Some m' \<and> move_value b d True md m' NegInf)"
        by simp
      have w: "NegInf = max NegInf NegInf"
        by simp
      have r1: "maximize_score b d ?ms md None NegInf (visit st1 d) = Inr ((mv, v), st1')"
        using assms(2) True by (simp only: minimax_node [OF stop ms] if_True)
      have r2: "maximize_with_pruning b d ?ms NegInf PosInf md None NegInf (visit st2 d)
          = Inr ((mv', r), st2')"
        using assms(3) True by (simp only: alpha_beta_node [OF stop ms] if_True)
      have 1: "\<exists>m. mv = Some m \<and> move_value b d True md m v"
        using maximize_score_move [OF c1 i1 r1] fin(1) by (simp add: finite_score_def)
      have 2: "\<exists>m'. mv' = Some m' \<and> move_value b d True md m' r"
        using maximize_with_pruning_move [OF c2 w window i1 r2] fin(2)
        by (simp add: finite_score_def)
      show ?thesis
        using 1 2 True by auto
    next
      case False
      have c1: "\<forall>m \<in> set ?ms. \<exists>nb vm nm. make_move b m HUMAN_PLAYER = Inr nb \<and> finite_score vm
          \<and> returns (minimax nb (d + 1) True md) vm nm"
        by (intro ballI child_mm)
      have c2: "\<forall>m \<in> set ?ms. \<exists>nb. make_move b m HUMAN_PLAYER = Inr nb
          \<and> searches_agree nb (d + 1) True md"
        by (intro ballI child)
      have i1: "PosInf < PosInf \<longrightarrow> (\<exists>m'. None = Some m' \<and> move_value b d False md m' PosInf)"
        by simp
      have w: "PosInf = min PosInf PosInf"
        by simp
      have r1: "minimize_score b d ?ms md None PosInf (visit st1 d) = Inr ((mv, v), st1')"
        using assms(2) False by (simp only: minimax_node [OF stop ms] if_False)
      have r2: "minimize_with_pruning b d ?ms NegInf PosInf md None PosInf (visit st2 d)
          = Inr ((mv', r), st2')"
        using assms(3) False by (simp only: alpha_beta_node [OF stop ms] if_False)
      have 1: "\<exists>m. mv = Some m \<and> move_value b d False md m v"
        using minimize_score_move [OF c1 i1 r1] fin(1) by (simp add: finite_score_def)
      have 2: "\<exists>m'. mv' = Some m' \<and> move_value b d False md m' r"
        using minimize_with_pruning_move [OF c2 w window i1 r2] fin(2)
        by (simp add: finite_score_def)
      show ?thesis
        using 1 2 False by auto
    qed
  qed
qed

text \<open>
  C1. On every 3x3 board, for every starting depth, side to move and depth limit,
  \<open>minimax\<close> and \<open>alpha_beta\<close> started with the window \<open>(-inf, +inf)\<close> both return, and
  with the same evaluation score, whatever statistics each starts from. Either both
  return no move (the search stopped at the root), or each returns a move whose exact
  value is that common score: the two moves can differ only among equally-scored moves.
\<close>

theorem alpha_beta_score_equals_minimax:
  assumes "board_3x3 b"
  shows "\<exists>mv s st1' mv' st2'.
           minimax b d ai md st1 = Inr ((mv, s), st1')
         \<and> alpha_beta b d NegInf PosInf ai md st2 = Inr ((mv', s), st2')
         \<and> ((mv = None \<and> mv' = None)
            \<or> (\<exists>m m'. mv = Some m \<and> mv' = Some m'
                  \<and> move_value b d ai md m s \<and> move_value b d ai md m' s))"
proof -
  have window: "NegInf < PosInf"
    by (simp add: less_score_def)
  obtain v n r k where a: "finite_score v" "returns (minimax b d ai md) v n"
      "returns (alpha_beta b d NegInf PosInf ai md) r k" "finite_score r"
      "window_bound NegInf PosInf v r"
    using searches_agree_3x3 [OF assms, of d ai md] window unfolding searches_agree_def
    by blast
  have eq: "r = v"
    using a(4,5) by (simp add: window_bound_def finite_score_def)
  obtain mv st1' where 1: "minimax b d ai md st1 = Inr ((mv, v), st1')"
    using returns_result [OF a(2)] by blast
  obtain mv' st2' where 2: "alpha_beta b d NegInf PosInf ai md st2 = Inr ((mv', v), st2')"
    using returns_result [OF a(3)] eq by blast
  show ?thesis
    using search_moves_3x3 [OF assms 1 2] 1 2
    by (intro exI [of _ mv] exI [of _ v] exI [of _ st1'] exI [of _ mv'] exI [of _ st2']) simp
qed

theorem alpha_beta_score_equals_minimax_witness:
  "board_3x3 board_two_empty
   \<and> (\<exists>mv s st1' mv' st2'.
         minimax board_two_empty 0 True 9 fresh_stats = Inr ((mv, s), st1')
       \<and> alpha_beta board_two_empty 0 NegInf PosInf True 9 fresh_stats = Inr ((mv', s), st2')
       \<and> ((mv = None \<and> mv' = None)
          \<or> (\<exists>m m'. mv = Some m \<and> mv' = Some m'
                \<and> move_value board_two_empty 0 True 9 m s
                \<and> move_value board_two_empty 0 True 9 m' s)))"
  using alpha_beta_score_equals_minimax [of board_two_empty 0 True 9 fresh_stats fresh_stats]
    board_3x3_examples(4)
  by blast

section \<open>Fallback and random substitution in \<open>get_best_move\<close>\<close>

lemma search_stops:
  assumes "board_3x3 b"
    and "occupies_line b HUMAN_PLAYER \<or> occupies_line b AI_PLAYER \<or> sd \<le> 0"
  shows "should_stop_search b 0 sd = Inr True"
proof -
  obtain w where w: "check_winner b = Inr w"
      "w = None \<longrightarrow> (\<forall>x. x \<noteq> '''' \<longrightarrow> \<not> occupies_line b x)"
    using check_winner_3x3 [OF assms(1)] by blast
  obtain s where s: "should_stop_search b 0 sd = Inr s" "sd \<le> 0 \<longrightarrow> s"
    using should_stop_search_3x3 [OF assms(1), of 0 sd] by blast
  show ?thesis
  proof (cases "sd \<le> 0")
    case True
    then show ?thesis
      using s by simp
  next
    case False
    then have "w \<noteq> None"
      using assms(2) w(2) by (auto simp: HUMAN_PLAYER_def AI_PLAYER_def)
    then show ?thesis
      using w(1) by (auto simp: should_stop_search_def is_game_over_def)
  qed
qed

lemma run_algorithm_stop:
  assumes "board_3x3 b" and "should_stop_search b 0 sd = Inr True"
  shows "\<exists>s reasoning st'. run_algorithm b algorithm sd st = Inr ((None, s, reasoning), st')"
proof -
  obtain e where e: "evaluate_position b 0 = Inr e"
    using evaluate_position_3x3 [OF assms(1)] by blast
  show ?thesis
    using minimax_stop [OF assms(2) e, of True st]
      alpha_beta_stop [OF assms(2) e, of NegInf PosInf True st]
    by (simp add: run_algorithm_def depth_limited_minimax_def)
qed

lemma run_algorithm_reasoning:
  "run_algorithm b algorithm sd st = Inr ((bm, s, reasoning), st') \<Longrightarrow>
   reasoning \<noteq> ''Fallback to first available move''"
  by (auto simp: run_algorithm_def split: if_splits sum.splits prod.splits)

lemma apply_difficulty_adjustments_result:
  "1 < length ms \<Longrightarrow>
   apply_difficulty_adjustments bm ms difficulty reasoning rng =
     Inr (if difficulty = ''easy'' \<and> random_value rng < float_0_3
          then ms ! (random_index rng mod length ms) else bm)"
  by (auto simp: apply_difficulty_adjustments_def random_choice_def)

lemma get_best_move_after_search:
  assumes "board_3x3 b" and "2 \<le> length (empty_cells b)"
    and "run_algorithm b algorithm (get_search_depth difficulty max_depth) (reset_stats st)
           = Inr ((bm, s, reasoning), st1)"
  shows "get_best_move st b algorithm difficulty max_depth rng
           = Inr ((if difficulty = ''easy'' \<and> random_value rng < float_0_3
                   then map (\<lambda>(r, c). Move r c) (empty_cells b)
                          ! (random_index rng mod length (empty_cells b))
                   else (case bm of
                           None \<Rightarrow> map (\<lambda>(r, c). Move r c) (empty_cells b) ! 0
                         | Some m \<Rightarrow> m),
                   create_analysis st1
                     (case bm of None \<Rightarrow> ''Fallback to first available move''
                      | Some m \<Rightarrow> reasoning)
                     (case bm of None \<Rightarrow> Num 0 | Some m \<Rightarrow> s)), st1)"
proof -
  let ?ms = "map (\<lambda>(r, c). Move r c) (empty_cells b)"
  have ms: "get_available_moves b = Inr ?ms" "?ms \<noteq> []" "length ?ms \<noteq> 1" "1 < length ?ms"
    using get_available_moves_3x3 [OF assms(1)] assms(2) by auto
  note adj = apply_difficulty_adjustments_result [OF ms(4)]
  show ?thesis
  proof (cases bm)
    case None
    then show ?thesis
      using ms(1,2,3) assms(3) adj [of "?ms ! 0" difficulty "''Fallback to first available move''" rng]
      by (simp add: get_best_move_def Let_def)
  next
    case (Some m)
    then show ?thesis
      using ms(1,2,3) assms(3) adj [of m difficulty reasoning rng]
      by (simp add: get_best_move_def Let_def)
  qed
qed

text \<open>
  C5, amended. On a 3x3 board of \<open>X\<close>, \<open>O\<close> and empty cells with at least two empty
  cells: if neither mark occupies a complete line and the resolved search depth is at
  least 1, the dispatched algorithm returns a move (not none) and the analysis
  \<open>get_best_move\<close> returns does not carry the fallback rationale; if a mark occupies a
  complete line or the resolved search depth is at most 0, the dispatched algorithm
  returns no move and \<open>get_best_move\<close> takes the fallback: the analysis carries the
  fallback rationale and the score 0, and the returned move is the first available move,
  unless the difficulty is "easy" and the draw is below the threshold, when it is the
  randomly chosen available move.
\<close>

theorem run_algorithm_returns_move:
  assumes "board_3x3 b" and "valid_cells b" and "2 \<le> length (empty_cells b)"
  shows "(\<not> occupies_line b HUMAN_PLAYER \<and> \<not> occupies_line b AI_PLAYER
            \<and> 1 \<le> get_search_depth difficulty max_depth \<longrightarrow>
            (\<exists>m s reasoning st'.
               run_algorithm b algorithm (get_search_depth difficulty max_depth) st
                 = Inr ((Some m, s, reasoning), st'))
          \<and> (\<exists>mv an st'.
               get_best_move st b algorithm difficulty max_depth rng = Inr ((mv, an), st')
             \<and> move_reasoning an \<noteq> ''Fallback to first available move''))
       \<and> (occupies_line b HUMAN_PLAYER \<or> occupies_line b AI_PLAYER
            \<or> get_search_depth difficulty max_depth \<le> 0 \<longrightarrow>
            (\<exists>s reasoning st'.
               run_algorithm b algorithm (get_search_depth difficulty max_depth) st
                 = Inr ((None, s, reasoning), st'))
          \<and> (\<exists>an st'.
               get_best_move st b algorithm difficulty max_depth rng
                 = Inr ((if difficulty = ''easy'' \<and> random_value rng < float_0_3
                         then map (\<lambda>(r, c). Move r c) (empty_cells b)
                                ! (random_index rng mod length (empty_cells b))
                         else map (\<lambda>(r, c). Move r c) (empty_cells b) ! 0, an), st')
             \<and> move_reasoning an = ''Fallback to first available move''
             \<and> evaluation_score an = Num 0))"
proof (intro conjI impI)
  let ?sd = "get_search_depth difficulty max_depth"
  have ne: "empty_cells b \<noteq> []"
    using assms(3) by auto
  {
    assume h: "\<not> occupies_line b HUMAN_PLAYER \<and> \<not> occupies_line b AI_PLAYER \<and> 1 \<le> ?sd"
    then have start: "should_stop_search b 0 ?sd = Inr False"
      using search_starts [OF assms(1,2) _ _ ne, of ?sd]
      by (simp add: AI_PLAYER_def HUMAN_PLAYER_def)
    show "\<exists>m s reasoning st'. run_algorithm b algorithm ?sd st = Inr ((Some m, s, reasoning), st')"
      using start by (rule run_algorithm_move [OF assms(1)])
    obtain m s reasoning st1 where r:
        "run_algorithm b algorithm ?sd (reset_stats st) = Inr ((Some m, s, reasoning), st1)"
      using run_algorithm_move [OF assms(1) start] by blast
    show "\<exists>mv an st'. get_best_move st b algorithm difficulty max_depth rng = Inr ((mv, an), st')
        \<and> move_reasoning an \<noteq> ''Fallback to first available move''"
      using get_best_move_after_search [OF assms(1,3) r, of rng] run_algorithm_reasoning [OF r]
      by (simp add: create_analysis_def)
  }
  {
    assume h: "occupies_line b HUMAN_PLAYER \<or> occupies_line b AI_PLAYER \<or> ?sd \<le> 0"
    have stop: "should_stop_search b 0 ?sd = Inr True"
      using search_stops [OF assms(1) h] .
    show "\<exists>s reasoning st'. run_algorithm b algorithm ?sd st = Inr ((None, s, reasoning), st')"
      using stop by (rule run_algorithm_stop [OF assms(1)])
    obtain s reasoning st1 where r:
        "run_algorithm b algorithm ?sd (reset_stats st) = Inr ((None, s, reasoning), st1)"
      using run_algorithm_stop [OF assms(1) stop] by blast
    show "\<exists>an st'. get_best_move st b algorithm difficulty max_depth rng
          = Inr ((if difficulty = ''easy'' \<and> random_value rng < float_0_3
                  then map (\<lambda>(r, c). Move r c) (empty_cells b)
                         ! (random_index rng mod length (empty_cells b))
                  else map (\<lambda>(r, c). Move r c) (empty_cells b) ! 0, an), st')
        \<and> move_reasoning an = ''Fallback to first available move''
        \<and> evaluation_score an = Num 0"
      using get_best_move_after_search [OF assms(1,3) r, of rng]
      by (simp add: create_analysis_def)
  }
qed

theorem run_algorithm_returns_move_witness:
  "(board_3x3 board_two_empty \<and> valid_cells board_two_empty
      \<and> 2 \<le> length (empty_cells board_two_empty)
      \<and> \<not> occupies_line board_two_empty HUMAN_PLAYER
      \<and> \<not> occupies_line board_two_empty AI_PLAYER
      \<and> 1 \<le> get_search_depth ''easy'' None
      \<and> (\<exists>m s reasoning st'.
            run_algorithm board_two_empty ''alpha_beta'' (get_search_depth ''easy'' None)
              fresh_stats = Inr ((Some m, s, reasoning), st'))
      \<and> (\<exists>mv an st'.
            get_best_move fresh_stats board_two_empty ''alpha_beta'' ''easy'' None low_draw
              = Inr ((mv, an), st')
          \<and> move_reasoning an \<noteq> ''Fallback to first available move''))
   \<and> (board_3x3 board_x_won \<and> valid_cells board_x_won
      \<and> 2 \<le> length (empty_cells board_x_won)
      \<and> occupies_line board_x_won HUMAN_PLAYER
      \<and> (\<exists>s reasoning st'.
            run_algorithm board_x_won ''minimax'' (get_search_depth ''easy'' None)
              fresh_stats = Inr ((None, s, reasoning), st'))
      \<and> (\<exists>an st'.
            get_best_move fresh_stats board_x_won ''minimax'' ''easy'' None low_draw
              = Inr ((if ''easy'' = ''easy'' \<and> random_value low_draw < float_0_3
                      then map (\<lambda>(r, c). Move r c) (empty_cells board_x_won)
                             ! (random_index low_draw mod length (empty_cells board_x_won))
                      else map (\<lambda>(r, c). Move r c) (empty_cells board_x_won) ! 0, an), st')
          \<and> move_reasoning an = ''Fallback to first available move''
          \<and> evaluation_score an = Num 0))"
proof -
  have h1: "board_3x3 board_two_empty" "valid_cells board_two_empty"
      "2 \<le> length (empty_cells board_two_empty)"
      "\<not> occupies_line board_two_empty HUMAN_PLAYER" "\<not> occupies_line board_two_empty AI_PLAYER"
      "1 \<le> get_search_depth ''easy'' None"
    by code_simp+
  have h2: "board_3x3 board_x_won" "valid_cells board_x_won"
      "2 \<le> length (empty_cells board_x_won)" "occupies_line board_x_won HUMAN_PLAYER"
    by code_simp+
  show ?thesis
    using run_algorithm_returns_move [OF h1(1,2,3), of "''easy''" None "''alpha_beta''"
        fresh_stats low_draw]
      run_algorithm_returns_move [OF h2(1,2,3), of "''easy''" None "''minimax''"
        fresh_stats low_draw]
      h1 h2
    by blast
qed

text \<open>
  C10, as stated, fails when the dispatched algorithm returns no move. On the opening
  board \<open>X__/_O_/___\<close> with the depth override 0 and difficulty "easy", the search stops
  at the root with the computed score 1 and no move; the fallback sets the score to 0;
  the draw below the threshold substitutes the random move (0, 2) for the fallback move
  (0, 1); and the returned analysis reports 0, not the computed 1.
\<close>

theorem easy_fallback_score_counterexample:
  "board_3x3 board_opening \<and> valid_cells board_opening
   \<and> random_value low_draw < float_0_3
   \<and> run_algorithm board_opening ''minimax'' (get_search_depth ''easy'' (Some 0))
        (reset_stats fresh_stats)
       = Inr ((None, Num 1, ''Classic minimax algorithm''),
              \<lparr>nodes_explored = 1, pruned_branches = 0, max_depth_reached = 0\<rparr>)
   \<and> get_best_move fresh_stats board_opening ''minimax'' ''easy'' (Some 0) low_draw
       = Inr ((Move 0 2,
               \<lparr>nodes_explored = 1, pruned_branches = 0, max_depth_reached = 0,
                  move_reasoning = ''Fallback to first available move'',
                  evaluation_score = Num 0\<rparr>),
              \<lparr>nodes_explored = 1, pruned_branches = 0, max_depth_reached = 0\<rparr>)"
  by code_simp

text \<open>
  C10, amended. On a 3x3 board with at least two empty cells, with difficulty "easy" and
  a draw below the threshold, \<open>get_best_move\<close> returns the randomly chosen available
  move, and the evaluation score of the returned analysis is the score that goes with
  the discarded move: the score the dispatched algorithm computed when it returned a
  move, and 0, the fallback score, when it returned none.
\<close>

theorem easy_random_move_keeps_score:
  assumes "board_3x3 b" and "2 \<le> length (empty_cells b)"
    and "random_value rng < float_0_3"
  shows "\<exists>bm s reasoning st1 an.
           run_algorithm b algorithm (get_search_depth ''easy'' max_depth) (reset_stats st)
             = Inr ((bm, s, reasoning), st1)
         \<and> get_best_move st b algorithm ''easy'' max_depth rng
             = Inr ((map (\<lambda>(r, c). Move r c) (empty_cells b)
                       ! (random_index rng mod length (empty_cells b)), an), st1)
         \<and> evaluation_score an = (case bm of None \<Rightarrow> Num 0 | Some m \<Rightarrow> s)"
proof -
  obtain bm s reasoning st1 where r:
      "run_algorithm b algorithm (get_search_depth ''easy'' max_depth) (reset_stats st)
         = Inr ((bm, s, reasoning), st1)"
    using run_algorithm_3x3 [OF assms(1)] by blast
  show ?thesis
    using get_best_move_after_search [OF assms(1,2) r, of rng] r assms(3)
    by (simp add: create_analysis_def)
qed

theorem easy_random_move_keeps_score_witness:
  "(board_3x3 board_two_empty \<and> 2 \<le> length (empty_cells board_two_empty)
      \<and> random_value low_draw < float_0_3
      \<and> (\<exists>bm s reasoning st1 an.
            run_algorithm board_two_empty ''alpha_beta'' (get_search_depth ''easy'' None)
              (reset_stats fresh_stats) = Inr ((bm, s, reasoning), st1)
          \<and> get_best_move fresh_stats board_two_empty ''alpha_beta'' ''easy'' None low_draw
              = Inr ((map (\<lambda>(r, c). Move r c) (empty_cells board_two_empty)
                        ! (random_index low_draw mod length (empty_cells board_two_empty)), an),
                     st1)
          \<and> evaluation_score an = (case bm of None \<Rightarrow> Num 0 | Some m \<Rightarrow> s)))
   \<and> (board_3x3 board_opening \<and> 2 \<le> length (empty_cells board_opening)
      \<and> (\<exists>bm s reasoning st1 an.
            run_algorithm board_opening ''minimax'' (get_search_depth ''easy'' (Some 0))
              (reset_stats fresh_stats) = Inr ((bm, s, reasoning), st1)
          \<and> get_best_move fresh_stats board_opening ''minimax'' ''easy'' (Some 0) low_draw
              = Inr ((map (\<lambda>(r, c). Move r c) (empty_cells board_opening)
                        ! (random_index low_draw mod length (empty_cells board_opening)), an),
                     st1)
          \<and> evaluation_score an = (case bm of None \<Rightarrow> Num 0 | Some m \<Rightarrow> s)))"
proof -
  have h1: "board_3x3 board_two_empty" "2 \<le> length (empty_cells board_two_empty)"
      "random_value low_draw < float_0_3"
    by code_simp+
  have h2: "board_3x3 board_opening" "2 \<le> length (empty_cells board_opening)"
    by code_simp+
  show ?thesis
    using easy_random_move_keeps_score [OF h1, of "''alpha_beta''" None fresh_stats]
      easy_random_move_keeps_score [OF h2 h1(3), of "''minimax''" "Some 0" fresh_stats]
      h1 h2
    by blast
qed

end
